theory Spec2Isabelle
  imports Complex_Main "HOL-Library.Log_Nat"
begin

section \<open>JavaScript numbers\<close>

text \<open>
  A JavaScript number is an IEEE 754 double: a finite value, one of the two infinities,
  or NaN. A finite double is given by its real value; the two zeros are one value here
  (they are \<open>===\<close>, and the code never divides by a variable). Arithmetic computes the
  exact real result and rounds it to the nearest double, ties to the even mantissa.
\<close>

datatype number = Finite real | PosInfinity | NegInfinity | NaN

text \<open>
  The exponent of the last mantissa bit of \<open>x\<close>: the least \<open>e\<close> from -1074 on with
  \<open>|x| < 2 ^ (e + 53)\<close>. (\<open>bitlen n\<close> is the number of binary digits of \<open>n\<close>.)
\<close>

definition expo :: "real \<Rightarrow> int" where
  "expo x = bitlen \<lfloor>\<bar>x\<bar> * 2 ^ 1021\<rfloor> - 1074"

text \<open>Rounding to the nearest integer, a tie going to the even one.\<close>

definition roundeven :: "real \<Rightarrow> int" where
  "roundeven q =
     (let f = \<lfloor>q\<rfloor>; d = q - of_int f
      in if d < 1 / 2 then f else if 1 / 2 < d then f + 1 else if even f then f else f + 1)"

text \<open>
  Rounding a real to a double: 53 bits of mantissa, exponents down to the subnormal
  range, and an infinity when the rounded value reaches \<open>2 ^ 1024\<close>.
\<close>

definition fl :: "real \<Rightarrow> number" where
  "fl x =
     (let e = expo x; y = of_int (roundeven (x / 2 powi e)) * 2 powi e
      in if 2 ^ 1024 \<le> \<bar>y\<bar> then (if 0 < x then PosInfinity else NegInfinity) else Finite y)"

text \<open>A real is a double when rounding leaves it alone.\<close>

definition is_double :: "real \<Rightarrow> bool" where
  "is_double x = (fl x = Finite x)"

text \<open>The values of the type that a JavaScript number can have.\<close>

fun js_number :: "number \<Rightarrow> bool" where
  "js_number (Finite x) = is_double x"
| "js_number a = True"

definition negate :: "number \<Rightarrow> number" where
  "negate a =
     (case a of
        Finite x \<Rightarrow> Finite (- x)
      | PosInfinity \<Rightarrow> NegInfinity
      | NegInfinity \<Rightarrow> PosInfinity
      | NaN \<Rightarrow> NaN)"

text \<open>\<open>a - b\<close>.\<close>

fun jsSub :: "number \<Rightarrow> number \<Rightarrow> number" where
  "jsSub (Finite x) (Finite y) = fl (x - y)"
| "jsSub NaN b = NaN"
| "jsSub a NaN = NaN"
| "jsSub PosInfinity PosInfinity = NaN"
| "jsSub NegInfinity NegInfinity = NaN"
| "jsSub PosInfinity b = PosInfinity"
| "jsSub NegInfinity b = NegInfinity"
| "jsSub a PosInfinity = NegInfinity"
| "jsSub a NegInfinity = PosInfinity"

text \<open>\<open>a * b\<close>.\<close>

fun jsMul :: "number \<Rightarrow> number \<Rightarrow> number" where
  "jsMul (Finite x) (Finite y) = fl (x * y)"
| "jsMul NaN b = NaN"
| "jsMul a NaN = NaN"
| "jsMul (Finite x) b = (if x = 0 then NaN else if 0 < x then b else negate b)"
| "jsMul a (Finite y) = (if y = 0 then NaN else if 0 < y then a else negate a)"
| "jsMul PosInfinity b = b"
| "jsMul NegInfinity b = negate b"

text \<open>\<open>a / 1000000\<close>, the only division in the code.\<close>

definition jsDiv1000000 :: "number \<Rightarrow> number" where
  "jsDiv1000000 a = (case a of Finite x \<Rightarrow> fl (x / 1000000) | _ \<Rightarrow> a)"

text \<open>\<open>a > 0\<close>.\<close>

definition jsPositive :: "number \<Rightarrow> bool" where
  "jsPositive a = (case a of Finite x \<Rightarrow> 0 < x | PosInfinity \<Rightarrow> True | _ \<Rightarrow> False)"

text \<open>\<open>Math.floor(a)\<close>.\<close>

definition mathFloor :: "number \<Rightarrow> number" where
  "mathFloor a = (case a of Finite x \<Rightarrow> Finite (of_int \<lfloor>x\<rfloor>) | _ \<Rightarrow> a)"

text \<open>
  The value of a numeric field of a response: a number, \<open>null\<close>, or \<open>undefined\<close> when the
  field is missing. \<open>toNumber\<close> is the conversion that the arithmetic operators and
  \<open>>\<close> apply to their operands.
\<close>

datatype jsval = Num number | Null | Undefined

definition toNumber :: "jsval \<Rightarrow> number" where
  "toNumber v = (case v of Num a \<Rightarrow> a | Null \<Rightarrow> Finite 0 | Undefined \<Rightarrow> NaN)"

text \<open>The doubles nearest to 1/3 and 2/3; both lie below the fraction.\<close>

definition third :: real where
  "third = 6004799503160661 / 2 ^ 54"

definition two_thirds :: real where
  "two_thirds = 6004799503160661 / 2 ^ 53"

section \<open>The round state machine and session state (src/rgs/state.ts)\<close>

text \<open>
  The four phases of a round are the string literals of the TypeScript type
  \<open>GameState\<close>.
\<close>

datatype GameState = rest | playing | awaiting_pick | resolving

text \<open>
  \<open>PlayResponse\<close> and \<open>EndRoundResponse\<close> are declared in \<open>./types\<close>; the fields
  below are the ones the code reads. \<open>round\<close> and \<open>round.state\<close> are absent when
  \<open>None\<close>; \<open>balance_amount\<close> is \<open>balance.amount\<close>.
\<close>

record Round =
  payoutMultiplier :: jsval
  state :: "string option"

record PlayResponse =
  round_opt :: "Round option"

record EndRoundResponse =
  balance_amount :: jsval

text \<open>
  A thrown value: the \<open>Error\<close> that \<open>executeGameRound\<close> creates itself, or whatever
  the session client (\<open>./api\<close>) rejects with, identified by a message.
\<close>

datatype error = CannotStartPlay GameState | ApiError string

text \<open>The lines written to the console, one constructor for each call in state.ts.\<close>

datatype console =
    InvalidStateTransition GameState GameState
  | StateTransition GameState GameState
  | BalanceDeducted number number
  | RoundState string
  | LastWinLine number
  | ActiveBetDetected
  | GameRoundFailed error
  | RoundFinalized number
  | FinalizeFailed error

text \<open>
  Everything the code does to the outside, in the order in which it happens: console
  lines, calls of the session client, and the calls and sprite updates of
  \<open>handleGameRound\<close>.
\<close>

datatype effect =
    Console console
  | PlayRoundCalled number
  | EndRoundCalled
  | CupsInteractive bool
  | LiftCup nat
  | LiftCupUndefined
  | LowerCup nat
  | DiamondVisible bool
  | DiamondAt nat
  | Timeout nat
  | OnBalanceUpdate EndRoundResponse
  | ShowWinModal number
  | Layout
  | OnRest

text \<open>
  The module-level variables of state.ts, together with the effects performed so far.
\<close>

record world =
  gamestate :: GameState
  response :: "PlayResponse option"
  endRoundResponse :: "EndRoundResponse option"
  balance :: number
  lastWin :: number
  out :: "effect list"

definition initial :: world where
  "initial = \<lparr>gamestate = rest, response = None, endRoundResponse = None,
     balance = Finite 1000, lastWin = Finite 0, out = []\<rparr>"

definition emit :: "effect \<Rightarrow> world \<Rightarrow> world" where
  "emit e w = w\<lparr>out := out w @ [e]\<rparr>"

definition emits :: "effect list \<Rightarrow> world \<Rightarrow> world" where
  "emits es w = w\<lparr>out := out w @ es\<rparr>"

text \<open>The effects performed between an earlier world and a later one.\<close>

definition new_effects :: "world \<Rightarrow> world \<Rightarrow> effect list" where
  "new_effects w w' = drop (length (out w)) (out w')"

definition getGameState :: "world \<Rightarrow> GameState" where
  "getGameState w = gamestate w"

definition getBalance :: "world \<Rightarrow> number" where
  "getBalance w = balance w"

definition getLastWin :: "world \<Rightarrow> number" where
  "getLastWin w = lastWin w"

definition getLastResponse :: "world \<Rightarrow> PlayResponse option" where
  "getLastResponse w = response w"

definition getLastEndRoundResponse :: "world \<Rightarrow> EndRoundResponse option" where
  "getLastEndRoundResponse w = endRoundResponse w"

fun validTransitions :: "GameState \<Rightarrow> GameState list" where
  "validTransitions rest = [playing]"
| "validTransitions playing = [awaiting_pick, rest]"
| "validTransitions awaiting_pick = [resolving]"
| "validTransitions resolving = [rest]"

definition setGameState :: "GameState \<Rightarrow> world \<Rightarrow> world" where
  "setGameState newState w =
     (if newState \<notin> set (validTransitions (gamestate w))
      then emit (Console (InvalidStateTransition (gamestate w) newState)) w
      else (emit (Console (StateTransition (gamestate w) newState)) w)\<lparr>gamestate := newState\<rparr>)"

definition canAdjustBet :: "world \<Rightarrow> bool" where
  "canAdjustBet w = (gamestate w = rest)"

definition canStartPlay :: "world \<Rightarrow> bool" where
  "canStartPlay w = (gamestate w = rest)"

definition canPickCup :: "world \<Rightarrow> bool" where
  "canPickCup w = (gamestate w = awaiting_pick)"

text \<open>A sequence of transition requests, served one after the other.\<close>

fun requests :: "GameState list \<Rightarrow> world \<Rightarrow> world" where
  "requests [] w = w"
| "requests (n # ns) w = requests ns (setGameState n w)"

text \<open>
  The transition table as the specification writes it:
  Rest to Playing, Playing to AwaitingPick or Rest, AwaitingPick to Resolving,
  Resolving to Rest.
\<close>

inductive spec_table :: "GameState \<Rightarrow> GameState \<Rightarrow> bool" where
  "spec_table rest playing"
| "spec_table playing awaiting_pick"
| "spec_table playing rest"
| "spec_table awaiting_pick resolving"
| "spec_table resolving rest"

code_pred spec_table .

text \<open>
  \<open>playResponse?.round?.payoutMultiplier\<close> and \<open>playResponse?.round?.state\<close>.
\<close>

definition round_payoutMultiplier :: "PlayResponse \<Rightarrow> jsval" where
  "round_payoutMultiplier playResponse =
     (case round_opt playResponse of None \<Rightarrow> Undefined | Some rd \<Rightarrow> payoutMultiplier rd)"

definition round_state :: "PlayResponse \<Rightarrow> string option" where
  "round_state playResponse =
     (case round_opt playResponse of None \<Rightarrow> None | Some rd \<Rightarrow> state rd)"

text \<open>
  The catch block of \<open>executeGameRound\<close> (lines 111 to 120). \<open>isActiveBetError\<close> is
  imported from \<open>./api\<close> and is a parameter here.
\<close>

definition executeGameRound_catch ::
  "(error \<Rightarrow> bool) \<Rightarrow> error \<Rightarrow> world \<Rightarrow> (error + PlayResponse) \<times> world" where
  "executeGameRound_catch isActiveBetError err w =
     (if isActiveBetError err then (Inl err, emit (Console ActiveBetDetected) w)
      else (Inl err, setGameState rest (emit (Console (GameRoundFailed err)) w)))"

text \<open>
  \<open>executeGameRound\<close>. \<open>playRound\<close> is the start-round call of the session client:
  given the bet amount it either rejects with an error or resolves with a response.
  The call itself is the effect \<open>PlayRoundCalled\<close>.
\<close>

definition executeGameRound ::
  "(error \<Rightarrow> bool) \<Rightarrow> (number \<Rightarrow> error + PlayResponse) \<Rightarrow> number \<Rightarrow> world
     \<Rightarrow> (error + PlayResponse) \<times> world" where
  "executeGameRound isActiveBetError playRound betAmount w =
     (if \<not> canStartPlay w
      then executeGameRound_catch isActiveBetError (CannotStartPlay (gamestate w)) w
      else
        let w1 = w\<lparr>balance := jsSub (balance w) betAmount\<rparr>;
            w2 = emit (Console (BalanceDeducted betAmount (balance w1))) w1;
            w3 = setGameState playing w2;
            w4 = emit (PlayRoundCalled betAmount) w3
        in case playRound betAmount of
             Inl err \<Rightarrow> executeGameRound_catch isActiveBetError err w4
           | Inr playResponse \<Rightarrow>
               let w5 = w4\<lparr>response := Some playResponse, endRoundResponse := None\<rparr>;
                   w6 = w5\<lparr>lastWin :=
                          (if round_payoutMultiplier playResponse \<noteq> Undefined
                           then jsMul (toNumber (round_payoutMultiplier playResponse)) betAmount
                           else Finite 0)\<rparr>;
                   w7 = (case round_state playResponse of
                           Some st \<Rightarrow> if st \<noteq> [] then emit (Console (RoundState st)) w6 else w6
                         | None \<Rightarrow> w6);
                   w8 = emit (Console (LastWinLine (lastWin w7))) w7
               in (Inr playResponse, w8))"

text \<open>
  \<open>finalizeRound\<close> in two parts: up to the call of the end-round operation, where it is
  suspended, and from the outcome \<open>endRound\<close> of that call on. The test
  \<open>amount != null\<close> fails for \<open>null\<close> and for \<open>undefined\<close>.
\<close>

definition finalizeRound_begin :: "world \<Rightarrow> world" where
  "finalizeRound_begin w = emit EndRoundCalled w"

definition finalizeRound_end ::
  "(error + EndRoundResponse) \<Rightarrow> world \<Rightarrow> (error + EndRoundResponse) \<times> world" where
  "finalizeRound_end endRound w0 =
     (case endRound of
        Inl err \<Rightarrow> (Inl err, emit (Console (FinalizeFailed err)) w0)
      | Inr confirmation \<Rightarrow>
          let w1 = w0\<lparr>balance := jsDiv1000000 (toNumber (balance_amount confirmation))\<rparr>;
              w2 = w1\<lparr>endRoundResponse := Some confirmation\<rparr>;
              w3 = (if balance_amount confirmation \<noteq> Null
                       \<and> balance_amount confirmation \<noteq> Undefined
                    then setGameState rest w2 else w2);
              w4 = emit (Console (RoundFinalized (balance w3))) w3
          in (Inr confirmation, w4))"

definition finalizeRound ::
  "(error + EndRoundResponse) \<Rightarrow> world \<Rightarrow> (error + EndRoundResponse) \<times> world" where
  "finalizeRound endRound w = finalizeRound_end endRound (finalizeRound_begin w)"

definition setAwaitingPick :: "world \<Rightarrow> world" where
  "setAwaitingPick w = setGameState awaiting_pick w"

definition startResolving :: "world \<Rightarrow> world" where
  "startResolving w = setGameState resolving w"

definition handleLoss :: "world \<Rightarrow> world" where
  "handleLoss w = setGameState rest w"

section \<open>The round orchestrator (src/game/gameRoundHelper.ts)\<close>

text \<open>
  The options \<open>handleGameRound\<close> reads. \<open>cupSprites\<close> is the number of sprites in
  \<open>ForegroundAnimationGroup.cupSprites\<close>; a cup is named by its index. The callbacks
  \<open>liftCup\<close>, \<open>lowerCup\<close>, \<open>onBalanceUpdate\<close>, \<open>showWinModal\<close>, \<open>layout\<close> and
  \<open>onRest\<close> belong to the presentation layer: a call is recorded as an effect, its
  promise resolves, and it does not touch the session variables. Hover listeners,
  cursors, scales and sounds are left out.
\<close>

record GameRoundOptions =
  skipAnimation :: bool
  forceEndRound :: bool
  cupSprites :: nat
  layout_defined :: bool
  showWinModal_defined :: bool

text \<open>
  What the surroundings contribute to one call of \<open>handleGameRound\<close>: the error
  classifier and the two calls of the session client, the successive results of
  \<open>Math.random()\<close>, and the cups whose \<open>pointertap\<close> listener fires, in order.
\<close>

record environment =
  isActiveBetError :: "error \<Rightarrow> bool"
  playRound :: "number \<Rightarrow> error + PlayResponse"
  endRound :: "error + EndRoundResponse"
  mathRandom :: "number list"
  pointertaps :: "nat list"

text \<open>The local variables of \<open>handleGameRound\<close> that its closures share.\<close>

record locals =
  playResponse :: "PlayResponse option"
  activeBetError :: bool
  chosenIdx :: "nat option"

datatype outcome = Returned | Threw error | Pending

text \<open>
  The test of line 141:
  \<open>playResponse && playResponse.round && playResponse.round.payoutMultiplier > 0\<close>.
\<close>

definition payoutMultiplier_positive :: "PlayResponse option \<Rightarrow> bool" where
  "payoutMultiplier_positive pr =
     (case pr of
        None \<Rightarrow> False
      | Some r \<Rightarrow>
          (case round_opt r of
             None \<Rightarrow> False
           | Some rd \<Rightarrow> jsPositive (toNumber (payoutMultiplier rd))))"

text \<open>
  What \<open>Math.random()\<close> can return: a double in the interval from 0 (included) to 1
  (excluded).
\<close>

definition random_value :: "number \<Rightarrow> bool" where
  "random_value r = (case r of Finite x \<Rightarrow> is_double x \<and> 0 \<le> x \<and> x < 1 | _ \<Rightarrow> False)"

text \<open>\<open>Math.floor(Math.random() * 3)\<close> for one result of \<open>Math.random()\<close>.\<close>

definition randomIndex :: "number \<Rightarrow> number" where
  "randomIndex r = mathFloor (jsMul r (Finite 3))"

text \<open>
  Lines 175 and 176: draw an index, and draw again while it is \<open>===\<close> the chosen one.
  The loop has no bound; the list holds the draws that are available, and \<open>None\<close> says
  that all of them were rejected, which stands for the loop not returning.
\<close>

fun otherIdx_loop :: "nat \<Rightarrow> number list \<Rightarrow> number option" where
  "otherIdx_loop idx [] = None"
| "otherIdx_loop idx (r # rs) =
     (if randomIndex r = Finite (of_nat idx) then otherIdx_loop idx rs
      else Some (randomIndex r))"

text \<open>
  \<open>cupSprites[otherIdx]\<close>: the sprite with that index, \<open>None\<close> for \<open>undefined\<close>.
\<close>

definition cupAt :: "nat \<Rightarrow> number \<Rightarrow> nat option" where
  "cupAt n a =
     (case a of
        Finite x \<Rightarrow>
          if 0 \<le> x \<and> x = of_int \<lfloor>x\<rfloor> \<and> nat \<lfloor>x\<rfloor> < n then Some (nat \<lfloor>x\<rfloor>) else None
      | _ \<Rightarrow> None)"

text \<open>
  Lines 64 to 78: the start of the round. The first component is a rethrown error. The
  classifier that \<open>handleGameRound\<close> imports from \<open>../rgs\<close> is the one that
  \<open>executeGameRound\<close> uses.
\<close>

definition startRound ::
  "environment \<Rightarrow> GameRoundOptions \<Rightarrow> world \<Rightarrow> error option \<times> locals \<times> world" where
  "startRound env opts w =
     (if \<not> skipAnimation opts then
        (case executeGameRound (isActiveBetError env) (playRound env) (Finite 1) w of
           (Inr r, w1) \<Rightarrow>
             (None, \<lparr>playResponse = Some r, activeBetError = False, chosenIdx = None\<rparr>, w1)
         | (Inl err, w1) \<Rightarrow>
             if isActiveBetError env err
             then (None, \<lparr>playResponse = None, activeBetError = True, chosenIdx = None\<rparr>, w1)
             else (Some err, \<lparr>playResponse = None, activeBetError = False, chosenIdx = None\<rparr>, w1))
      else (None, \<lparr>playResponse = None, activeBetError = False, chosenIdx = None\<rparr>, w))"

text \<open>Lines 193 to 196: the end of the listener; \<open>True\<close> says that \<open>resolve()\<close> ran.\<close>

definition finish :: "GameRoundOptions \<Rightarrow> world \<Rightarrow> bool \<times> world" where
  "finish opts w = (True, if layout_defined opts then emit Layout w else w)"

text \<open>
  Lines 132 to 196: the part of the \<open>pointertap\<close> listener that runs once the pick is
  recorded and the cups are disabled, taken as a whole. When \<open>finalizeRound\<close> rejects,
  when the loop does not return, or when the other cup is not a sprite (\<open>otherCup.x\<close>
  throws), the listener ends without \<open>resolve()\<close>.
\<close>

definition pointertap_body ::
  "environment \<Rightarrow> GameRoundOptions \<Rightarrow> locals \<Rightarrow> nat \<Rightarrow> world \<Rightarrow> bool \<times> world" where
  "pointertap_body env opts l idx w =
     (if activeBetError l \<or> forceEndRound opts then
        (case finalizeRound (endRound env) w of
           (Inl err, w1) \<Rightarrow> (False, w1)
         | (Inr confirmation, w1) \<Rightarrow>
             finish opts
               (emit (OnBalanceUpdate
                  (case getLastEndRoundResponse w1 of
                     Some r \<Rightarrow> r
                   | None \<Rightarrow> \<lparr>balance_amount = Num (Finite 0)\<rparr>)) w1))
      else
        let w1 = emit (LiftCup idx) w
        in if payoutMultiplier_positive (playResponse l) then
             let w2 = emits [DiamondVisible True, DiamondAt idx, Timeout 800, LowerCup idx,
                             DiamondVisible False] w1
             in (case finalizeRound (endRound env) w2 of
                   (Inl err, w3) \<Rightarrow> (False, w3)
                 | (Inr endRoundResult, w3) \<Rightarrow>
                     let w4 = emit (OnBalanceUpdate endRoundResult) w3;
                         w5 = (if showWinModal_defined opts
                                  \<and> payoutMultiplier_positive (playResponse l)
                               then emit (ShowWinModal (getLastWin w4)) w4 else w4)
                     in finish opts w5)
           else
             let w2 = emits [Timeout 600, LowerCup idx] w1
             in (case otherIdx_loop idx (mathRandom env) of
                   None \<Rightarrow> (False, w2)
                 | Some otherIdx \<Rightarrow>
                     (case cupAt (cupSprites opts) otherIdx of
                        Some other \<Rightarrow>
                          finish opts
                            (emits [LiftCup other, DiamondVisible True, DiamondAt other,
                                    Timeout 800, LowerCup other, DiamondVisible False] w2)
                      | None \<Rightarrow> (False, emits [LiftCupUndefined, DiamondVisible True] w2))))"

text \<open>
  The \<open>pointertap\<close> listener of the cup \<open>idx\<close> (lines 111 to 197) taken as a whole, on
  the locals, the world and the flag that says whether \<open>resolve()\<close> has run.
\<close>

definition pointertap ::
  "environment \<Rightarrow> GameRoundOptions \<Rightarrow> nat \<Rightarrow> locals \<times> world \<times> bool \<Rightarrow> locals \<times> world \<times> bool" where
  "pointertap env opts idx = (\<lambda>(l, w, resolved).
     if chosenIdx l \<noteq> None then (l, w, resolved)
     else
       let l1 = l\<lparr>chosenIdx := Some idx\<rparr>;
           w1 = emit (CupsInteractive False) w
       in case pointertap_body env opts l1 idx w1 of
            (r, w2) \<Rightarrow> (l1, w2, resolved \<or> r))"

text \<open>
  The taps served in order, each listener taken as a whole; only a cup of
  \<open>cupSprites\<close> has a listener. The event loop below serves the same taps with the
  listeners suspended at every \<open>await\<close>.
\<close>

fun deliver ::
  "environment \<Rightarrow> GameRoundOptions \<Rightarrow> nat list \<Rightarrow> locals \<times> world \<times> bool \<Rightarrow> locals \<times> world \<times> bool" where
  "deliver env opts [] s = s"
| "deliver env opts (idx # taps) s =
     deliver env opts taps (if idx < cupSprites opts then pointertap env opts idx s else s)"

text \<open>
  \<open>handleGameRound\<close>: it returns after \<open>onRest()\<close>, rejects with the error of the
  start, or stays pending when \<open>resolve()\<close> never runs. The final values of the local
  variables are returned for inspection. While the function is suspended, nothing but
  its own listeners acts on the session: one round is in flight.
\<close>

definition handleGameRound ::
  "environment \<Rightarrow> GameRoundOptions \<Rightarrow> world \<Rightarrow> outcome \<times> locals \<times> world" where
  "handleGameRound env opts w =
     (case startRound env opts w of
        (Some err, l, w1) \<Rightarrow> (Threw err, l, w1)
      | (None, l, w1) \<Rightarrow>
          (case deliver env opts (pointertaps env) (l, emit (CupsInteractive True) w1, False) of
             (l2, w2, resolved) \<Rightarrow>
               if resolved then (Returned, l2, emit OnRest w2) else (Pending, l2, w2)))"

section \<open>The listener between its suspension points\<close>

text \<open>
  The \<open>pointertap\<close> listener is an async function: a call runs up to its first
  \<open>await\<close> and is suspended there; when the awaited promise settles, it runs on to
  the next \<open>await\<close> or to its end. Between two such runs other listeners can run.
  \<open>place\<close> names the \<open>await\<close> at which a listener is suspended, or how it ended.
\<close>

datatype place =
    InFinalize bool
  | AfterFinalize bool "error + EndRoundResponse"
  | AwaitImport
  | AwaitLift
  | AwaitHoldWin
  | AwaitLowerWin
  | AwaitHoldLoss
  | AwaitLowerLoss
  | AwaitLiftOther nat
  | AwaitLiftUndefined
  | AwaitHoldOther nat
  | AwaitLowerOther nat
  | Resolved
  | Rejected
  | Looping

text \<open>
  \<open>InFinalize\<close>: inside \<open>finalizeRound\<close>, at \<open>await endRound()\<close>; \<open>AfterFinalize\<close>:
  \<open>finalizeRound\<close> has settled with the given outcome and the listener waits at
  \<open>await finalizeRound()\<close>. The flag is true on the win path (line 160) and false on
  the recovery path (line 134). \<open>AwaitImport\<close> is line 166, \<open>AwaitLift\<close> line 140,
  \<open>AwaitHoldWin\<close> and \<open>AwaitLowerWin\<close> lines 155 and 156, \<open>AwaitHoldLoss\<close> and
  \<open>AwaitLowerLoss\<close> lines 172 and 173, \<open>AwaitLiftOther\<close>, \<open>AwaitHoldOther\<close> and
  \<open>AwaitLowerOther\<close> lines 178, 187 and 188 with the index of the other cup, and
  \<open>AwaitLiftUndefined\<close> line 178 when the other cup is \<open>undefined\<close>. A listener has
  \<open>Resolved\<close> after \<open>resolve()\<close>, is \<open>Rejected\<close> after a throw, and is \<open>Looping\<close>
  when the loop of line 176 does not return.
\<close>

text \<open>
  A call of the listener of cup \<open>idx\<close>, up to its first \<open>await\<close> (lines 112 to 140).
  \<open>None\<close>: the guard of line 112 returned.
\<close>

definition pointertap_call ::
  "GameRoundOptions \<Rightarrow> nat \<Rightarrow> locals \<Rightarrow> world \<Rightarrow> locals \<times> world \<times> place option" where
  "pointertap_call opts idx l w =
     (if chosenIdx l \<noteq> None then (l, w, None)
      else
        let l1 = l\<lparr>chosenIdx := Some idx\<rparr>;
            w1 = emit (CupsInteractive False) w
        in if activeBetError l1 \<or> forceEndRound opts
           then (l1, finalizeRound_begin w1, Some (InFinalize False))
           else (l1, emit (LiftCup idx) w1, Some AwaitLift))"

text \<open>
  The listener of cup \<open>idx\<close> resumed at a place, up to the next one. The flag says
  whether \<open>resolve()\<close> ran. No statement after line 113 assigns to a local variable
  of \<open>handleGameRound\<close>, so a resumption reads the locals and returns none.
\<close>

fun pointertap_resume ::
  "environment \<Rightarrow> GameRoundOptions \<Rightarrow> locals \<Rightarrow> nat \<Rightarrow> place \<Rightarrow> world \<Rightarrow> place \<times> world \<times> bool" where
  "pointertap_resume env opts l idx (InFinalize win) w =
     (case finalizeRound_end (endRound env) w of (res, w1) \<Rightarrow> (AfterFinalize win res, w1, False))"
| "pointertap_resume env opts l idx (AfterFinalize win (Inl err)) w = (Rejected, w, False)"
| "pointertap_resume env opts l idx (AfterFinalize False (Inr confirmation)) w =
     (case finish opts
        (emit (OnBalanceUpdate
           (case getLastEndRoundResponse w of
              Some r \<Rightarrow> r
            | None \<Rightarrow> \<lparr>balance_amount = Num (Finite 0)\<rparr>)) w) of
        (r, w1) \<Rightarrow> (Resolved, w1, r))"
| "pointertap_resume env opts l idx (AfterFinalize True (Inr endRoundResult)) w =
     (let w1 = emit (OnBalanceUpdate endRoundResult) w
      in if showWinModal_defined opts \<and> payoutMultiplier_positive (playResponse l)
         then (AwaitImport, w1, False)
         else (case finish opts w1 of (r, w2) \<Rightarrow> (Resolved, w2, r)))"
| "pointertap_resume env opts l idx AwaitImport w =
     (case finish opts (emit (ShowWinModal (getLastWin w)) w) of (r, w1) \<Rightarrow> (Resolved, w1, r))"
| "pointertap_resume env opts l idx AwaitLift w =
     (if payoutMultiplier_positive (playResponse l)
      then (AwaitHoldWin, emits [DiamondVisible True, DiamondAt idx, Timeout 800] w, False)
      else (AwaitHoldLoss, emit (Timeout 600) w, False))"
| "pointertap_resume env opts l idx AwaitHoldWin w = (AwaitLowerWin, emit (LowerCup idx) w, False)"
| "pointertap_resume env opts l idx AwaitLowerWin w =
     (InFinalize True, finalizeRound_begin (emit (DiamondVisible False) w), False)"
| "pointertap_resume env opts l idx AwaitHoldLoss w = (AwaitLowerLoss, emit (LowerCup idx) w, False)"
| "pointertap_resume env opts l idx AwaitLowerLoss w =
     (case otherIdx_loop idx (mathRandom env) of
        None \<Rightarrow> (Looping, w, False)
      | Some otherIdx \<Rightarrow>
          (case cupAt (cupSprites opts) otherIdx of
             Some other \<Rightarrow> (AwaitLiftOther other, emit (LiftCup other) w, False)
           | None \<Rightarrow> (AwaitLiftUndefined, emit LiftCupUndefined w, False)))"
| "pointertap_resume env opts l idx AwaitLiftUndefined w =
     (Rejected, emit (DiamondVisible True) w, False)"
| "pointertap_resume env opts l idx (AwaitLiftOther other) w =
     (AwaitHoldOther other, emits [DiamondVisible True, DiamondAt other, Timeout 800] w, False)"
| "pointertap_resume env opts l idx (AwaitHoldOther other) w =
     (AwaitLowerOther other, emit (LowerCup other) w, False)"
| "pointertap_resume env opts l idx (AwaitLowerOther other) w =
     (case finish opts (emit (DiamondVisible False) w) of (r, w1) \<Rightarrow> (Resolved, w1, r))"
| "pointertap_resume env opts l idx Resolved w = (Resolved, w, False)"
| "pointertap_resume env opts l idx Rejected w = (Rejected, w, False)"
| "pointertap_resume env opts l idx Looping w = (Looping, w, False)"

text \<open>
  The event loop while \<open>handleGameRound\<close> waits at line 108: the shared locals, the
  world, the suspended listeners with their cups, and whether \<open>resolve()\<close> has run.
  An event is a tap on a cup, which calls its listener, or the settling of the promise
  that the listener number \<open>k\<close> awaits, which resumes it. Any sequence of events is a
  possible schedule.
\<close>

record eventloop =
  vars :: locals
  now :: world
  listeners :: "(nat \<times> place) list"
  promise_resolved :: bool

datatype event = Tap nat | Resume nat

definition dispatch :: "environment \<Rightarrow> GameRoundOptions \<Rightarrow> event \<Rightarrow> eventloop \<Rightarrow> eventloop" where
  "dispatch env opts ev s =
     (case ev of
        Tap idx \<Rightarrow>
          if idx < cupSprites opts then
            (case pointertap_call opts idx (vars s) (now s) of
               (l, w, None) \<Rightarrow> s\<lparr>vars := l, now := w\<rparr>
             | (l, w, Some p) \<Rightarrow> s\<lparr>vars := l, now := w, listeners := listeners s @ [(idx, p)]\<rparr>)
          else s
      | Resume k \<Rightarrow>
          if k < length (listeners s) then
            (case listeners s ! k of
               (idx, p) \<Rightarrow>
                 (case pointertap_resume env opts (vars s) idx p (now s) of
                    (p', w, r) \<Rightarrow>
                      s\<lparr>now := w, listeners := (listeners s)[k := (idx, p')],
                        promise_resolved := promise_resolved s \<or> r\<rparr>))
          else s)"

fun schedule :: "environment \<Rightarrow> GameRoundOptions \<Rightarrow> event list \<Rightarrow> eventloop \<Rightarrow> eventloop" where
  "schedule env opts [] s = s"
| "schedule env opts (ev # evs) s = schedule env opts evs (dispatch env opts ev s)"

text \<open>The event loop when the listeners have just been installed.\<close>

definition installed :: "locals \<Rightarrow> world \<Rightarrow> eventloop" where
  "installed l w = \<lparr>vars = l, now = w, listeners = [], promise_resolved = False\<rparr>"

text \<open>The taps of a schedule, and the first of them that hits a cup.\<close>

fun taps_of :: "event list \<Rightarrow> nat list" where
  "taps_of [] = []"
| "taps_of (Tap idx # evs) = idx # taps_of evs"
| "taps_of (Resume k # evs) = taps_of evs"

definition first_pick :: "GameRoundOptions \<Rightarrow> event list \<Rightarrow> nat option" where
  "first_pick opts evs =
     (case filter (\<lambda>i. i < cupSprites opts) (taps_of evs) of [] \<Rightarrow> None | i # _ \<Rightarrow> Some i)"

text \<open>A listener that will not run any further.\<close>

fun ended :: "place \<Rightarrow> bool" where
  "ended Resolved = True"
| "ended Rejected = True"
| "ended Looping = True"
| "ended p = False"

text \<open>
  The number of times a listener at a place can still be resumed before it has ended,
  at most.
\<close>

fun resumptions_left :: "place \<Rightarrow> nat" where
  "resumptions_left AwaitLift = 6"
| "resumptions_left AwaitHoldWin = 5"
| "resumptions_left AwaitLowerWin = 4"
| "resumptions_left (InFinalize win) = 3"
| "resumptions_left (AfterFinalize win res) = 2"
| "resumptions_left AwaitImport = 1"
| "resumptions_left AwaitHoldLoss = 5"
| "resumptions_left AwaitLowerLoss = 4"
| "resumptions_left (AwaitLiftOther other) = 3"
| "resumptions_left AwaitLiftUndefined = 1"
| "resumptions_left (AwaitHoldOther other) = 2"
| "resumptions_left (AwaitLowerOther other) = 1"
| "resumptions_left Resolved = 0"
| "resumptions_left Rejected = 0"
| "resumptions_left Looping = 0"

text \<open>
  The listener of cup \<open>idx\<close> resumed again and again until it has ended, with
  nothing else running in between: the place where it ends, the world, and whether
  \<open>resolve()\<close> has run.
\<close>

function run_to_end ::
  "environment \<Rightarrow> GameRoundOptions \<Rightarrow> locals \<Rightarrow> nat \<Rightarrow> place \<times> world \<times> bool \<Rightarrow> place \<times> world \<times> bool" where
  "run_to_end env opts l idx (p, w, r) =
     (if ended p then (p, w, r)
      else run_to_end env opts l idx
             (fst (pointertap_resume env opts l idx p w),
              fst (snd (pointertap_resume env opts l idx p w)),
              r \<or> snd (snd (pointertap_resume env opts l idx p w))))"
  by pat_completeness auto
termination
  apply (relation "measure (\<lambda>(env, opts, l, idx, p, w, r). resumptions_left p)")
   apply simp
  subgoal for env opts l idx p w r
    by (cases "(env, opts, l, idx, p, w)" rule: pointertap_resume.cases)
       (simp_all add: case_prod_beta Let_def finish_def split: option.split)
  done

section \<open>Reading the effects\<close>

text \<open>The cups at which the diamond is shown, in order.\<close>

fun reveal_targets :: "effect list \<Rightarrow> nat list" where
  "reveal_targets [] = []"
| "reveal_targets (DiamondAt i # es) = i # reveal_targets es"
| "reveal_targets (_ # es) = reveal_targets es"

text \<open>The amounts passed to \<open>showWinModal\<close>, in order.\<close>

fun win_reports :: "effect list \<Rightarrow> number list" where
  "win_reports [] = []"
| "win_reports (ShowWinModal v # es) = v # win_reports es"
| "win_reports (_ # es) = win_reports es"

text \<open>The phase changes that took place, in order.\<close>

fun phase_changes :: "effect list \<Rightarrow> (GameState \<times> GameState) list" where
  "phase_changes [] = []"
| "phase_changes (Console (StateTransition a b) # es) = (a, b) # phase_changes es"
| "phase_changes (_ # es) = phase_changes es"

text \<open>The effects that precede the first call of the end-round operation.\<close>

definition before_finalize :: "effect list \<Rightarrow> effect list" where
  "before_finalize es = takeWhile (\<lambda>e. e \<noteq> EndRoundCalled) es"

text \<open>The effects of the reveal animation: lifting, lowering, the diamond and the holds.\<close>

fun is_animation :: "effect \<Rightarrow> bool" where
  "is_animation (LiftCup i) = True"
| "is_animation LiftCupUndefined = True"
| "is_animation (LowerCup i) = True"
| "is_animation (DiamondVisible b) = True"
| "is_animation (DiamondAt i) = True"
| "is_animation (Timeout ms) = True"
| "is_animation _ = False"

text \<open>
  The console line for \<open>round.state\<close>, the value stored in \<open>lastWin\<close> and the call of
  \<open>layout\<close>, as lists of effects and values, to write down the result of a run.
\<close>

definition roundStateLines :: "PlayResponse \<Rightarrow> effect list" where
  "roundStateLines r =
     (case round_state r of
        Some st \<Rightarrow> if st \<noteq> [] then [Console (RoundState st)] else []
      | None \<Rightarrow> [])"

definition lastWinOf :: "PlayResponse \<Rightarrow> number \<Rightarrow> number" where
  "lastWinOf r b =
     (if round_payoutMultiplier r \<noteq> Undefined
      then jsMul (toNumber (round_payoutMultiplier r)) b else Finite 0)"

definition layoutCall :: "GameRoundOptions \<Rightarrow> effect list" where
  "layoutCall opts = (if layout_defined opts then [Layout] else [])"

text \<open>
  The index that the thresholds give to a draw: 0 below the double nearest 1/3, 1 from
  there up to the double nearest 2/3, and 2 from there on.
\<close>

definition threshold_index :: "real \<Rightarrow> nat" where
  "threshold_index x = (if x < third then 0 else if x < two_thirds then 1 else 2)"

section \<open>Example rounds\<close>

text \<open>The double that the literal 0.6 denotes.\<close>

definition double_0_6 :: real where
  "double_0_6 = 5404319552844595 / 2 ^ 53"

text \<open>The double that the literal 0.3 denotes.\<close>

definition double_0_3 :: real where
  "double_0_3 = 5404319552844595 / 2 ^ 54"

definition winning_response :: PlayResponse where
  "winning_response =
     \<lparr>round_opt = Some \<lparr>payoutMultiplier = Num (Finite double_0_6), state = Some ''complete''\<rparr>\<rparr>"

definition losing_response :: PlayResponse where
  "losing_response = \<lparr>round_opt = Some \<lparr>payoutMultiplier = Num (Finite 0), state = None\<rparr>\<rparr>"

definition active_bet :: error where
  "active_bet = ApiError ''active bet''"

definition network_down :: error where
  "network_down = ApiError ''network''"

definition confirmation_1000_5 :: EndRoundResponse where
  "confirmation_1000_5 = \<lparr>balance_amount = Num (Finite 1000500000)\<rparr>"

definition confirmation_null :: EndRoundResponse where
  "confirmation_null = \<lparr>balance_amount = Null\<rparr>"

definition three_cups :: GameRoundOptions where
  "three_cups = \<lparr>skipAnimation = False, forceEndRound = False, cupSprites = 3,
     layout_defined = True, showWinModal_defined = True\<rparr>"

text \<open>
  A round that the server resolves as a win, a loss, or refuses with the active-bet
  error; the player taps cup 0 and then cup 1, and the draws 0.125 and 0.5 give the
  indices 0 and 1.
\<close>

definition round_env :: "(error + PlayResponse) \<Rightarrow> environment" where
  "round_env started =
     \<lparr>isActiveBetError = (\<lambda>e. e = active_bet), playRound = (\<lambda>b. started),
      endRound = Inr confirmation_1000_5, mathRandom = [Finite (1 / 8), Finite (1 / 2)],
      pointertaps = [0, 1]\<rparr>"

section \<open>Rounding to doubles\<close>

lemma bitlen_mono: "a \<le> b \<Longrightarrow> bitlen a \<le> bitlen b"
  by (smt (verit) bitlen_le_iff_power bitlen_nonneg)

lemma expo_ge: "- 1074 \<le> expo x"
proof -
  define N where "N = \<lfloor>\<bar>x\<bar> * 2 ^ 1021\<rfloor>"
  have "expo x = bitlen N - 1074" unfolding expo_def N_def ..
  then show ?thesis using bitlen_nonneg [of N] by simp
qed

lemma powi_shift:
  assumes "a = b + 1021"
  shows "(2::real) powi a = 2 powi b * 2 ^ 1021"
proof -
  have "(2::real) powi (b + 1021) = 2 powi b * 2 powi 1021" by (rule power_int_add) simp
  also have "(2::real) powi 1021 = 2 ^ 1021" by (rule power_int_numeral)
  finally show ?thesis using assms by simp
qed

lemma expo_upper: "\<bar>x\<bar> < 2 powi (expo x + 53)"
proof -
  define K :: real where "K = 2 ^ 1021"
  define N where "N = \<lfloor>\<bar>x\<bar> * K\<rfloor>"
  have K: "0 < K" unfolding K_def by (rule zero_less_power) simp
  have e: "expo x = bitlen N - 1074" unfolding expo_def N_def K_def ..
  have "N < 2 ^ nat (bitlen N)"
    using bitlen_le_iff_power [of N "bitlen N"] by simp
  then have "\<bar>x\<bar> * K < of_int ((2::int) ^ nat (bitlen N))"
    unfolding N_def by (simp only: floor_less_iff)
  also have "of_int ((2::int) ^ nat (bitlen N)) = (2::real) powi (expo x + 1074)"
    using bitlen_nonneg [of N] by (simp add: e power_int_def)
  also have "\<dots> = 2 powi (expo x + 53) * K" unfolding K_def by (rule powi_shift) simp
  finally show ?thesis using K by simp
qed

lemma expo_lower:
  assumes "- 1074 < expo x"
  shows "2 powi (expo x + 52) \<le> \<bar>x\<bar>"
proof -
  define K :: real where "K = 2 ^ 1021"
  define N where "N = \<lfloor>\<bar>x\<bar> * K\<rfloor>"
  have K: "0 < K" unfolding K_def by (rule zero_less_power) simp
  have e: "expo x = bitlen N - 1074" unfolding expo_def N_def K_def ..
  have pos: "0 < bitlen N" using assms by (simp add: e)
  then have "0 < N" using bitlen_eq_zero_iff [of N] by (smt (verit))
  then have "2 ^ nat (bitlen N - 1) \<le> N" using bitlen_bounds by blast
  then have "of_int ((2::int) ^ nat (bitlen N - 1)) \<le> \<bar>x\<bar> * K"
    unfolding N_def by (simp only: le_floor_iff)
  moreover have "of_int ((2::int) ^ nat (bitlen N - 1)) = (2::real) powi (expo x + 1073)"
    using pos by (simp add: e power_int_def)
  moreover have "(2::real) powi (expo x + 1073) = 2 powi (expo x + 52) * K"
    unfolding K_def by (rule powi_shift) simp
  ultimately show ?thesis using K by simp
qed

lemma expo_eq:
  assumes "2 powi (e + 52) \<le> \<bar>x\<bar>" and "\<bar>x\<bar> < 2 powi (e + 53)" and "- 1074 \<le> e"
  shows "expo x = e"
proof (rule antisym)
  show "expo x \<le> e"
  proof (rule ccontr)
    assume "\<not> expo x \<le> e"
    then have lt: "e + 1 \<le> expo x" by simp
    then have "- 1074 < expo x" using assms(3) by simp
    then have "2 powi (expo x + 52) \<le> \<bar>x\<bar>" by (rule expo_lower)
    moreover have "(2::real) powi (e + 53) \<le> 2 powi (expo x + 52)"
      using lt by (intro power_int_increasing) simp_all
    ultimately show False using assms(2) by simp
  qed
  show "e \<le> expo x"
  proof (rule ccontr)
    assume "\<not> e \<le> expo x"
    then have "expo x + 53 \<le> e + 52" by simp
    then have "(2::real) powi (expo x + 53) \<le> 2 powi (e + 52)"
      by (intro power_int_increasing) simp_all
    then show False using expo_upper [of x] assms(1) by simp
  qed
qed

lemma expo_subnormal:
  assumes "\<bar>x\<bar> < 2 powi (- 1021)"
  shows "expo x = - 1074"
proof (rule ccontr)
  assume "expo x \<noteq> - 1074"
  then have gt: "- 1074 < expo x" using expo_ge [of x] by simp
  then have "2 powi (expo x + 52) \<le> \<bar>x\<bar>" by (rule expo_lower)
  moreover have "(2::real) powi (- 1021) \<le> 2 powi (expo x + 52)"
    using gt by (intro power_int_increasing) simp_all
  ultimately show False using assms by simp
qed

lemma expo_mono:
  assumes "\<bar>x\<bar> \<le> \<bar>y\<bar>"
  shows "expo x \<le> expo y"
proof -
  define K :: real where "K = 2 ^ 1021"
  have K: "0 < K" unfolding K_def by (rule zero_less_power) simp
  have "\<bar>x\<bar> * K \<le> \<bar>y\<bar> * K" using assms K by simp
  then have "\<lfloor>\<bar>x\<bar> * K\<rfloor> \<le> \<lfloor>\<bar>y\<bar> * K\<rfloor>" by (rule floor_mono)
  then have "bitlen \<lfloor>\<bar>x\<bar> * K\<rfloor> \<le> bitlen \<lfloor>\<bar>y\<bar> * K\<rfloor>" by (rule bitlen_mono)
  then show ?thesis unfolding expo_def K_def by simp
qed

lemma roundeven_of_int [simp]: "roundeven (of_int n) = n"
  by (simp add: roundeven_def)

lemma roundeven_le: "q \<le> of_int n \<Longrightarrow> roundeven q \<le> n"
  unfolding roundeven_def Let_def by (auto; linarith)

lemma roundeven_ge: "of_int n \<le> q \<Longrightarrow> n \<le> roundeven q"
  unfolding roundeven_def Let_def by (auto; linarith)

lemma roundeven_le_half: "q < of_int n + 1 / 2 \<Longrightarrow> roundeven q \<le> n"
  unfolding roundeven_def Let_def by (auto; linarith)

lemma roundeven_ge_half: "of_int n - 1 / 2 < q \<Longrightarrow> n \<le> roundeven q"
  unfolding roundeven_def Let_def by (auto; linarith)

lemma roundeven_ge_tie: "of_int n - 1 / 2 \<le> q \<Longrightarrow> even n \<Longrightarrow> n \<le> roundeven q"
  unfolding roundeven_def Let_def
  by (smt (verit, best) even_plus_one_iff field_sum_of_halves floor_correct
    int_less_real_le)

lemma roundeven_le_tie: "q \<le> of_int n + 1 / 2 \<Longrightarrow> even n \<Longrightarrow> roundeven q \<le> n"
  unfolding roundeven_def Let_def
  by (smt (verit, best) even_plus_one_iff field_sum_of_halves floor_correct
    int_less_real_le)

lemma abs_roundeven_le:
  assumes "\<bar>q\<bar> \<le> of_int n"
  shows "\<bar>roundeven q\<bar> \<le> n"
proof -
  have "roundeven q \<le> n" using assms by (intro roundeven_le) simp
  moreover have "- n \<le> roundeven q" using assms by (intro roundeven_ge) simp
  ultimately show ?thesis by simp
qed

lemma quotient_bound:
  assumes "\<bar>x::real\<bar> < 2 powi (e + 53)"
  shows "\<bar>x / 2 powi e\<bar> < 2 ^ 53"
proof -
  have "(2::real) powi (e + 53) = 2 powi e * 2 powi 53" by (rule power_int_add) simp
  then have "\<bar>x\<bar> < 2 powi e * 2 ^ 53" using assms by simp
  moreover have "(0::real) < 2 powi e" by simp
  ultimately show ?thesis by (simp add: abs_divide pos_divide_less_eq mult.commute)
qed

lemma fl_finite:
  assumes "\<bar>x\<bar> < 2 powi 1023"
  shows "fl x = Finite (of_int (roundeven (x / 2 powi expo x)) * 2 powi expo x)"
proof -
  define e where "e = expo x"
  define n where "n = roundeven (x / 2 powi e)"
  have e: "e \<le> 970"
  proof (rule ccontr)
    assume "\<not> e \<le> 970"
    then have big: "971 \<le> e" by simp
    then have "- 1074 < expo x" unfolding e_def by simp
    then have "2 powi (e + 52) \<le> \<bar>x\<bar>" unfolding e_def by (rule expo_lower)
    moreover have "(2::real) powi 1023 \<le> 2 powi (e + 52)"
      using big by (intro power_int_increasing) simp_all
    ultimately show False using assms by simp
  qed
  have "\<bar>x / 2 powi e\<bar> < 2 ^ 53" unfolding e_def by (rule quotient_bound) (rule expo_upper)
  then have "\<bar>x / 2 powi e\<bar> \<le> of_int (2 ^ 53)" by simp
  then have n: "\<bar>n\<bar> \<le> 2 ^ 53" unfolding n_def by (rule abs_roundeven_le)
  have "\<bar>of_int n * (2::real) powi e\<bar> = of_int \<bar>n\<bar> * 2 powi e"
    by (simp add: abs_mult)
  also have "\<dots> \<le> of_int (2 ^ 53) * 2 powi e"
    using n by (intro mult_right_mono) (simp_all only: of_int_le_iff, simp)
  also have "\<dots> \<le> of_int (2 ^ 53) * 2 powi 970"
    using e by (intro mult_left_mono power_int_increasing) simp_all
  also have "\<dots> < 2 ^ 1024" by simp
  finally have "\<not> 2 ^ 1024 \<le> \<bar>of_int n * (2::real) powi e\<bar>" by simp
  then show ?thesis unfolding fl_def Let_def n_def e_def by (simp only: if_False)
qed

lemma is_double_mantissa:
  assumes "is_double x"
  shows "x = of_int (roundeven (x / 2 powi expo x)) * 2 powi expo x"
  using assms unfolding is_double_def fl_def Let_def by (auto split: if_splits)

lemma is_doubleI:
  assumes x: "x = of_int m * 2 powi k" and m: "\<bar>m\<bar> < 2 ^ 53" and k: "- 1074 \<le> k" "k \<le> 971"
  shows "is_double x"
proof -
  define e where "e = expo x"
  have ax: "\<bar>x\<bar> = of_int \<bar>m\<bar> * 2 powi k" unfolding x by (simp add: abs_mult)
  have "of_int \<bar>m\<bar> < (2::real) ^ 53" using m by (simp only: of_int_less_numeral_power_cancel_iff)
  then have lt: "\<bar>x\<bar> < 2 ^ 53 * 2 powi k" unfolding ax by simp
  have ke: "e \<le> k"
  proof (rule ccontr)
    assume "\<not> e \<le> k"
    then have ek: "k + 1 \<le> e" by simp
    then have "- 1074 < expo x" using k unfolding e_def by simp
    then have "2 powi (e + 52) \<le> \<bar>x\<bar>" unfolding e_def by (rule expo_lower)
    moreover have "(2::real) powi (k + 53) \<le> 2 powi (e + 52)"
      using ek by (intro power_int_increasing) simp_all
    moreover have "(2::real) powi (k + 53) = 2 powi k * 2 powi 53" by (rule power_int_add) simp
    ultimately show False using lt by simp
  qed
  define N where "N = m * 2 ^ nat (k - e)"
  have "(2::real) powi k = 2 powi ((k - e) + e)" by simp
  also have "\<dots> = 2 powi (k - e) * 2 powi e" by (rule power_int_add) simp
  also have "(2::real) powi (k - e) = of_int (2 ^ nat (k - e))"
    using ke by (simp add: power_int_def)
  finally have dec: "x = of_int N * 2 powi e"
    unfolding x N_def by simp
  have "of_int N * (2::real) powi e / 2 powi e = of_int N" by simp
  then have "x / 2 powi e = of_int N" by (simp only: dec [symmetric])
  then have "roundeven (x / 2 powi e) = N" by (simp only: roundeven_of_int)
  then have r: "of_int (roundeven (x / 2 powi e)) * 2 powi e = x"
    by (simp only: dec [symmetric])
  have "2 ^ 53 * (2::real) powi k \<le> 2 ^ 53 * 2 powi 971"
    using k by (intro mult_left_mono power_int_increasing) simp_all
  also have "\<dots> = 2 ^ 1024" by simp
  finally have "\<bar>x\<bar> < 2 ^ 1024" using lt by simp
  then have "\<not> 2 ^ 1024 \<le> \<bar>of_int (roundeven (x / 2 powi e)) * (2::real) powi e\<bar>"
    by (simp only: r)
  then have "fl x = Finite (of_int (roundeven (x / 2 powi e)) * 2 powi e)"
    unfolding fl_def Let_def e_def by (simp only: if_False)
  then show ?thesis unfolding is_double_def by (simp only: r)
qed

lemma fl_le:
  assumes x: "0 \<le> x" and xd: "x \<le> d" and d: "is_double d"
  shows "\<exists>y. fl x = Finite y \<and> 0 \<le> y \<and> y \<le> d"
proof -
  define e where "e = expo x"
  define q where "q = x / 2 powi e"
  define n where "n = roundeven (d / 2 powi expo d)"
  have dn: "d = of_int n * 2 powi expo d" unfolding n_def using d by (rule is_double_mantissa)
  have "of_int n * (2::real) powi expo d / 2 powi expo d = of_int n" by simp
  then have dq: "d / 2 powi expo d = of_int n" by (simp only: dn [symmetric])
  have p: "(0::real) < 2 powi e" by simp
  have q0: "0 \<le> q" unfolding q_def using x by simp
  have r0: "0 \<le> roundeven q" using q0 by (intro roundeven_ge) simp
  have ed: "e \<le> expo d" unfolding e_def using x xd by (intro expo_mono) simp
  have le: "of_int (roundeven q) * 2 powi e \<le> d"
  proof (cases "e = expo d")
    case True
    have "q \<le> d / 2 powi e" unfolding q_def using xd by (simp add: divide_right_mono)
    also have "d / 2 powi e = of_int n" using dq True by simp
    finally have "roundeven q \<le> n" by (rule roundeven_le)
    then have "of_int (roundeven q) * 2 powi e \<le> of_int n * (2::real) powi e"
      by (intro mult_right_mono) simp_all
    then show ?thesis using dn True by simp
  next
    case False
    then have lt: "e + 1 \<le> expo d" using ed by simp
    then have "- 1074 < expo d" using expo_ge [of x] unfolding e_def by simp
    then have "2 powi (expo d + 52) \<le> \<bar>d\<bar>" by (rule expo_lower)
    moreover have "(2::real) powi (e + 53) \<le> 2 powi (expo d + 52)"
      using lt by (intro power_int_increasing) simp_all
    ultimately have big: "2 powi (e + 53) \<le> d" using x xd by simp
    have "\<bar>q\<bar> < 2 ^ 53" unfolding q_def e_def by (rule quotient_bound) (rule expo_upper)
    then have "q \<le> of_int (2 ^ 53)" by simp
    then have "roundeven q \<le> 2 ^ 53" by (rule roundeven_le)
    then have "of_int (roundeven q) * 2 powi e \<le> of_int (2 ^ 53) * (2::real) powi e"
      by (intro mult_right_mono) (simp_all only: of_int_le_iff, simp)
    also have "\<dots> = 2 powi (e + 53)"
      using power_int_add [of "2::real" e 53] by simp
    finally show ?thesis using big by simp
  qed
  have dlt: "\<bar>d\<bar> < 2 ^ 1024"
    using d unfolding is_double_def fl_def Let_def
    by (simp split: if_splits add: dn [symmetric] n_def)
  have y0: "0 \<le> of_int (roundeven q) * (2::real) powi e" using r0 by simp
  then have "\<not> 2 ^ 1024 \<le> \<bar>of_int (roundeven q) * (2::real) powi e\<bar>"
    using le dlt x xd by simp
  then have "fl x = Finite (of_int (roundeven q) * 2 powi e)"
    unfolding fl_def Let_def q_def e_def by (simp only: if_False)
  then show ?thesis using le y0 by simp
qed

lemma fl_ge:
  assumes d0: "0 \<le> d" and dx: "d \<le> x" and d: "is_double d" and xu: "x \<le> u" and u: "is_double u"
  shows "\<exists>y. fl x = Finite y \<and> d \<le> y"
proof -
  obtain y where y: "fl x = Finite y" "0 \<le> y" "y \<le> u"
    using fl_le [of x u] d0 dx xu u by auto
  define e where "e = expo x"
  define q where "q = x / 2 powi e"
  define n where "n = roundeven (d / 2 powi expo d)"
  have dn: "d = of_int n * 2 powi expo d" unfolding n_def using d by (rule is_double_mantissa)
  have "of_int n * (2::real) powi expo d / 2 powi expo d = of_int n" by simp
  then have dq: "d / 2 powi expo d = of_int n" by (simp only: dn [symmetric])
  have yq: "y = of_int (roundeven q) * 2 powi e"
    using y(1) unfolding fl_def Let_def q_def e_def by (simp split: if_splits)
  have de: "expo d \<le> e" unfolding e_def using d0 dx by (intro expo_mono) simp
  have "d \<le> of_int (roundeven q) * 2 powi e"
  proof (cases "e = expo d")
    case True
    have "d / 2 powi e \<le> q" unfolding q_def using dx by (simp add: divide_right_mono)
    moreover have "d / 2 powi e = of_int n" using dq True by simp
    ultimately have "n \<le> roundeven q" by (intro roundeven_ge) simp
    then have "of_int n * (2::real) powi e \<le> of_int (roundeven q) * 2 powi e"
      by (intro mult_right_mono) simp_all
    then show ?thesis using dn True by simp
  next
    case False
    then have lt: "expo d + 1 \<le> e" using de by simp
    then have "- 1074 < expo x" using expo_ge [of d] unfolding e_def by simp
    then have low: "2 powi (e + 52) \<le> \<bar>x\<bar>" unfolding e_def by (rule expo_lower)
    have "(2::real) powi (e + 52) = 2 powi e * 2 powi 52" by (rule power_int_add) simp
    then have "of_int (2 ^ 52) \<le> q" unfolding q_def using low d0 dx
      by (simp add: pos_le_divide_eq mult.commute)
    then have "2 ^ 52 \<le> roundeven q" by (rule roundeven_ge)
    then have m: "of_int (2 ^ 52) * (2::real) powi e \<le> of_int (roundeven q) * 2 powi e"
      by (intro mult_right_mono) (simp_all only: of_int_le_iff, simp)
    have "d \<le> \<bar>d\<bar>" by simp
    also have "\<bar>d\<bar> < 2 powi (expo d + 53)" by (rule expo_upper)
    also have "(2::real) powi (expo d + 53) \<le> 2 powi (e + 52)"
      using lt by (intro power_int_increasing) simp_all
    also have "(2::real) powi (e + 52) = of_int (2 ^ 52) * 2 powi e"
      using power_int_add [of "2::real" e 52] by simp
    also note m
    finally show ?thesis by simp
  qed
  then show ?thesis using y(1) yq by simp
qed

lemma double_grid:
  assumes r: "is_double r" and low: "2 powi (j + 52) \<le> \<bar>r\<bar>" and j: "- 1074 \<le> j"
  shows "\<exists>N::int. r = of_int N * 2 powi j"
proof -
  define e where "e = expo r"
  define n where "n = roundeven (r / 2 powi e)"
  have rn: "r = of_int n * 2 powi e" unfolding n_def e_def using r by (rule is_double_mantissa)
  have je: "j \<le> e"
  proof (rule ccontr)
    assume "\<not> j \<le> e"
    then have "e + 53 \<le> j + 52" by simp
    then have "(2::real) powi (e + 53) \<le> 2 powi (j + 52)"
      by (intro power_int_increasing) simp_all
    moreover have "\<bar>r\<bar> < 2 powi (e + 53)" unfolding e_def by (rule expo_upper)
    ultimately show False using low by simp
  qed
  have "(2::real) powi e = 2 powi ((e - j) + j)" by simp
  also have "\<dots> = 2 powi (e - j) * 2 powi j" by (rule power_int_add) simp
  also have "(2::real) powi (e - j) = of_int (2 ^ nat (e - j))"
    using je by (simp add: power_int_def)
  finally have "r = of_int (n * 2 ^ nat (e - j)) * 2 powi j"
    using rn by simp
  then show ?thesis ..
qed

lemma fl_tie_up:
  assumes low: "2 powi k - 2 powi (k - 54) \<le> x" and up: "x < 2 powi k"
    and k: "- 1021 \<le> k" "k \<le> 1022"
  shows "fl x = Finite (2 powi k)"
proof -
  define e where "e = k - 53"
  define p :: real where "p = 2 powi e"
  have pe: "0 < p" unfolding p_def by simp
  have pk: "(2::real) powi k = 2 ^ 53 * p"
    unfolding e_def p_def using power_int_add [of "2::real" 53 "k - 53"] by simp
  have pk1: "(2::real) powi (k - 1) = 2 ^ 52 * p"
    unfolding e_def p_def using power_int_add [of "2::real" 52 "k - 53"] by simp
  have pk54: "(2::real) powi (k - 54) = p / 2"
    unfolding e_def p_def using power_int_add [of "2::real" "k - 53" "- 1"] by simp
  have low': "2 ^ 53 * p - p / 2 \<le> x" using low unfolding pk pk54 .
  have up': "x < 2 ^ 53 * p" using up unfolding pk .
  have x1: "2 ^ 52 * p \<le> x" using low' pe by simp
  have x0: "0 < x" using x1 pe by (smt (verit) mult_pos_pos zero_less_power)
  have ex: "expo x = e"
  proof (rule expo_eq)
    have "(2::real) powi (e + 52) = 2 powi (k - 1)" unfolding e_def by simp
    then show "2 powi (e + 52) \<le> \<bar>x\<bar>" using x1 x0 pk1 by simp
    have "(2::real) powi (e + 53) = 2 powi k" unfolding e_def by simp
    then show "\<bar>x\<bar> < 2 powi (e + 53)" using up x0 by simp
    show "- 1074 \<le> e" using k unfolding e_def by simp
  qed
  define q where "q = x / p"
  have "of_int (2 ^ 53) - 1 / 2 \<le> q"
    unfolding q_def using low' pe by (simp add: field_simps)
  then have "2 ^ 53 \<le> roundeven q" by (rule roundeven_ge_tie) simp
  moreover have "q \<le> of_int (2 ^ 53)"
    unfolding q_def using up' pe by (simp add: field_simps)
  then have "roundeven q \<le> 2 ^ 53" by (rule roundeven_le)
  ultimately have rq: "roundeven q = 2 ^ 53" by simp
  have "\<bar>x\<bar> < 2 powi 1023"
  proof -
    have "(2::real) powi k \<le> 2 powi 1023" using k by (intro power_int_increasing) simp_all
    then show ?thesis using up x0 by simp
  qed
  then have "fl x = Finite (of_int (roundeven (x / 2 powi expo x)) * 2 powi expo x)"
    by (rule fl_finite)
  then have "fl x = Finite (of_int (roundeven q) * p)"
    unfolding ex q_def p_def .
  then show ?thesis unfolding rq pk by simp
qed

lemma fl_below_three:
  assumes "2 \<le> x" and "x \<le> 3 - 3 / 2 ^ 53"
  shows "\<exists>y. fl x = Finite y \<and> 2 \<le> y \<and> y < 3"
proof -
  have ex: "expo x = - 51"
    by (rule expo_eq) (use assms in \<open>simp_all add: power_int_minus\<close>)
  define q where "q = x * 2 ^ 51"
  have qd: "x / 2 powi (- 51) = q" unfolding q_def by (simp add: power_int_minus field_simps)
  have "q < of_int (3 * 2 ^ 51 - 1) + 1 / 2" unfolding q_def using assms(2) by simp
  then have u: "roundeven q \<le> 3 * 2 ^ 51 - 1" by (rule roundeven_le_half)
  have "of_int (2 ^ 52) \<le> q" unfolding q_def using assms(1) by simp
  then have l: "2 ^ 52 \<le> roundeven q" by (rule roundeven_ge)
  have "\<bar>x\<bar> < 2 powi 1023" using assms by simp
  then have "fl x = Finite (of_int (roundeven (x / 2 powi expo x)) * 2 powi expo x)"
    by (rule fl_finite)
  then have f: "fl x = Finite (of_int (roundeven q) / 2 ^ 51)"
    unfolding ex qd by (simp add: power_int_minus field_simps)
  have ge: "(2::real) \<le> of_int (roundeven q) / 2 ^ 51"
  proof -
    have "of_int (2 ^ 52) \<le> (of_int (roundeven q) :: real)" using l by (simp only: of_int_le_iff)
    then show ?thesis by simp
  qed
  have lt: "of_int (roundeven q) / 2 ^ 51 < (3::real)"
  proof -
    have "(of_int (roundeven q) :: real) \<le> of_int (3 * 2 ^ 51 - 1)" using u by (simp only: of_int_le_iff)
    then show ?thesis by simp
  qed
  show ?thesis by (intro exI [of _ "of_int (roundeven q) / 2 ^ 51"] conjI f ge lt)
qed

lemma is_double_small:
  "is_double 0" "is_double 1" "is_double 2" "is_double 3"
  "is_double (1 - 1 / 2 ^ 52)" "is_double (2 - 1 / 2 ^ 51)"
proof -
  show "is_double 0" by (rule is_doubleI [of _ 0 0]) simp_all
  show "is_double 1" by (rule is_doubleI [of _ 1 0]) simp_all
  show "is_double 2" by (rule is_doubleI [of _ 2 0]) simp_all
  show "is_double 3" by (rule is_doubleI [of _ 3 0]) simp_all
  show "is_double (1 - 1 / 2 ^ 52)"
    by (rule is_doubleI [of _ "2 ^ 52 - 1" "- 52"]) (simp_all add: power_int_minus field_simps)
  show "is_double (2 - 1 / 2 ^ 51)"
    by (rule is_doubleI [of _ "2 ^ 52 - 1" "- 51"]) (simp_all add: power_int_minus field_simps)
qed

lemma below_grid:
  assumes r: "is_double r" and lt: "r < of_int M / 2 ^ n" and low: "2 ^ 52 / 2 ^ n \<le> r"
    and n: "n \<le> 1074"
  shows "r \<le> of_int (M - 1) / 2 ^ n"
proof -
  have p: "(2::real) powi (- int n) = inverse (2 ^ n)" by (simp add: power_int_minus)
  have a: "(2::real) powi (- int n + 52) = 2 powi (- int n) * 2 powi 52"
    by (rule power_int_add) simp
  have "2 powi (- int n + 52) \<le> r" unfolding a p using low by (simp add: field_simps)
  then have "2 powi (- int n + 52) \<le> \<bar>r\<bar>" by simp
  then obtain N :: int where N: "r = of_int N * 2 powi (- int n)"
    using double_grid [OF r, of "- int n"] n by auto
  then have rN: "r = of_int N / 2 ^ n" unfolding p by (simp add: field_simps)
  then have "(of_int N :: real) < of_int M" using lt by (simp add: divide_less_cancel)
  then have "N \<le> M - 1" by simp
  then have "(of_int N :: real) \<le> of_int (M - 1)" by (simp only: of_int_le_iff)
  then show ?thesis unfolding rN by (simp add: divide_right_mono)
qed

lemma randomIndex_thresholds:
  assumes r: "is_double r" and r0: "0 \<le> r" and r1: "r < 1"
  shows "randomIndex (Finite r) =
     Finite (if r < third then 0 else if r < two_thirds then 1 else 2)"
proof -
  have index: "randomIndex (Finite r) = Finite (of_int k)"
    if "fl (r * 3) = Finite y" and "of_int k \<le> y" and "y < of_int k + 1" for y k
    using that by (simp add: randomIndex_def mathFloor_def floor_unique)
  define d1 :: real where "d1 = 1 - 1 / 2 ^ 52"
  define d2 :: real where "d2 = 2 - 1 / 2 ^ 51"
  have d1: "is_double d1" "d1 < 1"
    unfolding d1_def by (rule is_double_small) simp
  have d2: "is_double d2" "d2 < 2" "1 \<le> d2"
    unfolding d2_def by (rule is_double_small) simp_all
  have x0: "0 \<le> r * 3" using r0 by simp
  have tt: "third < two_thirds" unfolding third_def two_thirds_def by simp
  consider (a) "r < third" | (b) "third \<le> r" "r < two_thirds" | (c) "two_thirds \<le> r"
    by linarith
  then show ?thesis
  proof cases
    case a
    have up: "r * 3 \<le> d1"
    proof (cases "1 / 4 \<le> r")
      case True
      have "r \<le> of_int (6004799503160661 - 1) / 2 ^ 54"
        by (rule below_grid [OF r]) (use a True in \<open>simp_all add: third_def\<close>)
      then show ?thesis unfolding d1_def by simp
    next
      case False
      then show ?thesis unfolding d1_def by simp
    qed
    obtain y where "fl (r * 3) = Finite y" "0 \<le> y" "y \<le> d1"
      using fl_le [OF x0 up d1(1)] by blast
    then have "randomIndex (Finite r) = Finite (of_int 0)"
      using d1(2) by (intro index [of y 0]) simp_all
    then show ?thesis using a by simp
  next
    case b
    have up: "r * 3 \<le> d2"
    proof (cases "1 / 2 \<le> r")
      case True
      have "r \<le> of_int (6004799503160661 - 1) / 2 ^ 53"
        by (rule below_grid [OF r]) (use b True in \<open>simp_all add: two_thirds_def\<close>)
      then show ?thesis unfolding d2_def by simp
    next
      case False
      then show ?thesis unfolding d2_def by simp
    qed
    have low: "1 - 1 / 2 ^ 54 \<le> r * 3" using b(1) by (simp add: third_def)
    obtain y' where y': "fl (r * 3) = Finite y'" "y' \<le> d2"
      using fl_le [OF x0 up d2(1)] by blast
    have "1 \<le> y'"
    proof (cases "1 \<le> r * 3")
      case True
      obtain y where "fl (r * 3) = Finite y" "1 \<le> y"
        using fl_ge [OF _ True is_double_small(2) up d2(1)] by auto
      then show ?thesis using y'(1) by simp
    next
      case False
      have "fl (r * 3) = Finite (2 powi 0)"
        by (rule fl_tie_up) (use False low in \<open>simp_all add: power_int_minus\<close>)
      then show ?thesis using y'(1) by simp
    qed
    then have "randomIndex (Finite r) = Finite (of_int 1)"
      using y' d2(2) by (intro index [of y' 1]) simp_all
    then show ?thesis using b tt by simp
  next
    case c
    have low: "2 - 1 / 2 ^ 53 \<le> r * 3" using c by (simp add: two_thirds_def)
    have "r \<le> of_int (2 ^ 53 - 1) / 2 ^ 53"
      by (rule below_grid [OF r]) (use c r1 in \<open>simp_all add: two_thirds_def\<close>)
    then have up: "r * 3 \<le> 3 - 3 / 2 ^ 53" by simp
    obtain y where y: "fl (r * 3) = Finite y" "2 \<le> y" "y < 3"
    proof (cases "2 \<le> r * 3")
      case True
      then show ?thesis using fl_below_three [OF True up] that by auto
    next
      case False
      have "fl (r * 3) = Finite (2 powi 1)"
        by (rule fl_tie_up) (use False low in \<open>simp_all add: power_int_minus\<close>)
      then show ?thesis using that by simp
    qed
    have "randomIndex (Finite r) = Finite (of_int 2)"
      using y by (intro index [of y 2]) simp_all
    then show ?thesis using c tt by simp
  qed
qed

lemma fl_double: "is_double x \<Longrightarrow> fl x = Finite x"
  by (simp add: is_double_def)

lemma is_double_int:
  assumes "\<bar>m\<bar> < 2 ^ 53"
  shows "is_double (of_int m)"
  by (rule is_doubleI [of _ m 0]) (use assms in simp_all)

lemma fl_int: "\<bar>m\<bar> < 2 ^ 53 \<Longrightarrow> fl (of_int m) = Finite (of_int m)"
  by (rule fl_double) (rule is_double_int)

lemma jsMul_one: "js_number a \<Longrightarrow> jsMul a (Finite 1) = a"
  by (cases a) (simp_all add: fl_double)

lemma is_double_0_6: "is_double double_0_6"
  unfolding double_0_6_def
  by (rule is_doubleI [of _ 5404319552844595 "- 53"]) (simp_all add: power_int_minus field_simps)

lemma is_double_fractions:
  "is_double (1 / 8)" "is_double (1 / 2)" "is_double (2001 / 2)"
proof -
  show "is_double (1 / 8)"
    by (rule is_doubleI [of _ 1 "- 3"]) (simp_all add: power_int_minus)
  show "is_double (1 / 2)"
    by (rule is_doubleI [of _ 1 "- 1"]) (simp_all add: power_int_minus)
  show "is_double (2001 / 2)"
    by (rule is_doubleI [of _ 2001 "- 1"]) (simp_all add: power_int_minus)
qed

text \<open>The odd integer below \<open>10 ^ 16\<close> is not a double; it is rounded up.\<close>

lemma fl_below_1e16: "fl 9999999999999999 = Finite 10000000000000000"
proof -
  have ex: "expo 9999999999999999 = 1"
    by (rule expo_eq) simp_all
  have r: "roundeven (9999999999999999 / 2 powi 1) = 5000000000000000"
    by (simp add: roundeven_def Let_def)
  have "\<bar>9999999999999999::real\<bar> < 2 powi 1023" by simp
  then have "fl 9999999999999999 =
      Finite (of_int (roundeven (9999999999999999 / 2 powi expo 9999999999999999))
              * 2 powi expo 9999999999999999)"
    by (rule fl_finite)
  then show ?thesis unfolding ex r by simp
qed

lemma initial_bet: "jsSub (Finite 1000) (Finite 1) = Finite 999"
  using fl_int [of 999] by simp

lemma confirmed_1000_5: "jsDiv1000000 (Finite 1000500000) = Finite (2001 / 2)"
  using fl_double [OF is_double_fractions(3)] by (simp add: jsDiv1000000_def)

lemma jsDiv1000000_zero: "jsDiv1000000 (Finite 0) = Finite 0"
  using fl_int [of 0] by (simp add: jsDiv1000000_def)

text \<open>
  0.3 - 1 is not a double either: it lies halfway between two doubles and is rounded to
  the one with the even mantissa, which is the double that -0.7 denotes.
\<close>

lemma fl_0_3_minus_1: "fl (double_0_3 - 1) = Finite (- (6305039478318694 / 2 ^ 53))"
proof -
  have v: "double_0_3 - 1 = - (12610078956637389 / 2 ^ 54)"
    by (simp add: double_0_3_def)
  have ex: "expo (- (12610078956637389 / 2 ^ 54)) = - 53"
    by (rule expo_eq) (simp_all add: power_int_minus field_simps)
  have q: "- (12610078956637389 / 2 ^ 54) / 2 powi (- 53) = - (12610078956637389 / (2::real))"
    by (simp add: power_int_minus field_simps)
  have r: "roundeven (- (12610078956637389 / (2::real))) = - 6305039478318694"
    by (simp add: roundeven_def Let_def)
  have "\<bar>- (12610078956637389 / 2 ^ 54) :: real\<bar> < 2 powi 1023" by simp
  then have "fl (- (12610078956637389 / 2 ^ 54)) =
      Finite (of_int (roundeven (- (12610078956637389 / 2 ^ 54)
                / 2 powi expo (- (12610078956637389 / 2 ^ 54))))
              * 2 powi expo (- (12610078956637389 / 2 ^ 54)))"
    by (rule fl_finite)
  then show ?thesis unfolding v ex q r by (simp add: power_int_minus field_simps)
qed

section \<open>Properties of the state machine\<close>

lemma spec_table_iff: "spec_table a b \<longleftrightarrow> b \<in> set (validTransitions a)"
  by (cases a; cases b) (auto intro: spec_table.intros elim: spec_table.cases)

lemma gamestate_setGameState:
  "gamestate (setGameState n w) = (if spec_table (gamestate w) n then n else gamestate w)"
  by (simp add: setGameState_def emit_def spec_table_iff)

lemma out_setGameState:
  "out (setGameState n w) = out w @
     [Console (if spec_table (gamestate w) n then StateTransition (gamestate w) n
               else InvalidStateTransition (gamestate w) n)]"
  by (simp add: setGameState_def emit_def spec_table_iff)

lemma requests_reachable:
  "spec_table\<^sup>*\<^sup>* p (gamestate w) \<Longrightarrow> spec_table\<^sup>*\<^sup>* p (gamestate (requests ns w))"
proof (induction ns arbitrary: w)
  case Nil
  then show ?case by simp
next
  case (Cons n ns)
  have "spec_table\<^sup>*\<^sup>* p (gamestate (setGameState n w))"
    using Cons.prems by (auto simp: gamestate_setGameState intro: rtranclp.rtrancl_into_rtrancl)
  then show ?case using Cons.IH by simp
qed

text \<open>
  C1. Starting from the phase rest, after every sequence of requests made through
  setGameState the phase is reachable from rest along the table; a single request
  moves the phase to the requested one when the table has that edge, and otherwise
  leaves the phase (and every other session variable) unchanged and only writes a
  warning to the console. setGameState returns a world for every input, it has no
  error result.
\<close>

theorem setGameState_follows_table:
  "(gamestate w = rest \<longrightarrow> spec_table\<^sup>*\<^sup>* rest (gamestate (requests ns w))) \<and>
   (spec_table (gamestate w) n \<longrightarrow> gamestate (setGameState n w) = n) \<and>
   (\<not> spec_table (gamestate w) n \<longrightarrow>
      setGameState n w = w\<lparr>out := out w @ [Console (InvalidStateTransition (gamestate w) n)]\<rparr>)"
proof (intro conjI impI)
  assume "gamestate w = rest"
  then have "spec_table\<^sup>*\<^sup>* rest (gamestate w)" by simp
  then show "spec_table\<^sup>*\<^sup>* rest (gamestate (requests ns w))" by (rule requests_reachable)
next
  assume "spec_table (gamestate w) n"
  then show "gamestate (setGameState n w) = n" by (simp add: gamestate_setGameState)
next
  assume "\<not> spec_table (gamestate w) n"
  then show "setGameState n w = w\<lparr>out := out w @ [Console (InvalidStateTransition (gamestate w) n)]\<rparr>"
    by (simp add: setGameState_def emit_def spec_table_iff)
qed

theorem setGameState_follows_table_witness:
  "gamestate initial = rest \<and>
   spec_table\<^sup>*\<^sup>* rest (gamestate (requests [playing, resolving, awaiting_pick, rest] initial)) \<and>
   spec_table (gamestate initial) playing \<and> gamestate (setGameState playing initial) = playing \<and>
   \<not> spec_table (gamestate initial) resolving \<and>
   setGameState resolving initial =
     initial\<lparr>out := out initial @ [Console (InvalidStateTransition (gamestate initial) resolving)]\<rparr>"
  using setGameState_follows_table [of initial "[playing, resolving, awaiting_pick, rest]" playing]
    setGameState_follows_table [of initial "[]" resolving]
  by (simp add: initial_def spec_table_iff)

section \<open>Results of the operations of state.ts\<close>

lemma setGameState_eq:
  "setGameState n w =
     w\<lparr>gamestate := (if n \<in> set (validTransitions (gamestate w)) then n else gamestate w),
       out := out w @
         [Console (if n \<in> set (validTransitions (gamestate w))
                   then StateTransition (gamestate w) n
                   else InvalidStateTransition (gamestate w) n)]\<rparr>"
  by (simp add: setGameState_def emit_def)

lemma executeGameRound_ok:
  assumes "gamestate w = rest" and "play b = Inr r"
  shows "executeGameRound i play b w =
    (Inr r, w\<lparr>gamestate := playing, response := Some r, endRoundResponse := None,
       balance := jsSub (balance w) b, lastWin := lastWinOf r b,
       out := out w @ [Console (BalanceDeducted b (jsSub (balance w) b)),
                Console (StateTransition rest playing), PlayRoundCalled b] @
              roundStateLines r @ [Console (LastWinLine (lastWinOf r b))]\<rparr>)"
  using assms
  by (cases "round_state r")
     (simp_all add: executeGameRound_def canStartPlay_def setGameState_eq emit_def Let_def
        roundStateLines_def lastWinOf_def)

lemma executeGameRound_fail:
  assumes "gamestate w = rest" and "play b = Inl err"
  shows "executeGameRound i play b w =
    (Inl err, w\<lparr>gamestate := (if i err then playing else rest),
       balance := jsSub (balance w) b,
       out := out w @ [Console (BalanceDeducted b (jsSub (balance w) b)),
                Console (StateTransition rest playing), PlayRoundCalled b] @
              (if i err then [Console ActiveBetDetected]
               else [Console (GameRoundFailed err), Console (StateTransition playing rest)])\<rparr>)"
  using assms
  by (simp add: executeGameRound_def executeGameRound_catch_def canStartPlay_def setGameState_eq
        emit_def Let_def)

lemma executeGameRound_not_rest:
  assumes "gamestate w \<noteq> rest"
  shows "executeGameRound i play b w =
    (Inl (CannotStartPlay (gamestate w)),
     if i (CannotStartPlay (gamestate w)) then w\<lparr>out := out w @ [Console ActiveBetDetected]\<rparr>
     else w\<lparr>gamestate := (if gamestate w = awaiting_pick then awaiting_pick else rest),
            out := out w @ [Console (GameRoundFailed (CannotStartPlay (gamestate w))),
              Console (if gamestate w = awaiting_pick
                       then InvalidStateTransition awaiting_pick rest
                       else StateTransition (gamestate w) rest)]\<rparr>)"
  using assms
  by (cases "gamestate w")
     (simp_all add: executeGameRound_def executeGameRound_catch_def canStartPlay_def setGameState_eq
        emit_def Let_def)

lemma finalizeRound_ok:
  assumes "balance_amount c = Num a"
  shows "finalizeRound (Inr c) w =
    (Inr c, w\<lparr>gamestate := (if gamestate w = awaiting_pick then awaiting_pick else rest),
       balance := jsDiv1000000 a, endRoundResponse := Some c,
       out := out w @ [EndRoundCalled,
          Console (if gamestate w = playing \<or> gamestate w = resolving
                   then StateTransition (gamestate w) rest
                   else InvalidStateTransition (gamestate w) rest),
          Console (RoundFinalized (jsDiv1000000 a))]\<rparr>)"
  using assms
  by (cases "gamestate w")
     (simp_all add: finalizeRound_def finalizeRound_begin_def finalizeRound_end_def setGameState_eq
        emit_def Let_def toNumber_def)

lemma finalizeRound_null:
  assumes "balance_amount c = Null \<or> balance_amount c = Undefined"
  shows "finalizeRound (Inr c) w =
    (Inr c, w\<lparr>balance := jsDiv1000000 (toNumber (balance_amount c)), endRoundResponse := Some c,
       out := out w @ [EndRoundCalled,
          Console (RoundFinalized (jsDiv1000000 (toNumber (balance_amount c))))]\<rparr>)"
  using assms
  by (auto simp add: finalizeRound_def finalizeRound_begin_def finalizeRound_end_def emit_def Let_def)

lemma finalizeRound_fail:
  "finalizeRound (Inl err) w =
    (Inl err, w\<lparr>out := out w @ [EndRoundCalled, Console (FinalizeFailed err)]\<rparr>)"
  by (simp add: finalizeRound_def finalizeRound_begin_def finalizeRound_end_def emit_def Let_def)

lemma amount_cases:
  obtains a where "balance_amount c = Num a"
  | "balance_amount c = Null \<or> balance_amount c = Undefined"
  by (cases "balance_amount c") auto

text \<open>
  C2, as the claim states it, fails: the balance is a double, and subtracting the bet
  need not take exactly the bet away. With a balance of \<open>10 ^ 16\<close> and a bet of 1 the
  difference is not a double and is rounded back to \<open>10 ^ 16\<close>: the round starts, the
  start-round operation is called, and nothing is deducted. With a balance of 0.3 and a
  bet of 1 the new balance is the double -0.7, which is not the old balance minus 1.
\<close>

theorem executeGameRound_rounding_counterexample:
  "gamestate (initial\<lparr>balance := Finite 10000000000000000\<rparr>) = rest \<and>
   fst (executeGameRound (\<lambda>e. e = active_bet) (\<lambda>b. Inr winning_response) (Finite 1)
          (initial\<lparr>balance := Finite 10000000000000000\<rparr>)) = Inr winning_response \<and>
   balance (snd (executeGameRound (\<lambda>e. e = active_bet) (\<lambda>b. Inr winning_response) (Finite 1)
          (initial\<lparr>balance := Finite 10000000000000000\<rparr>))) = Finite 10000000000000000 \<and>
   balance (snd (executeGameRound (\<lambda>e. e = active_bet) (\<lambda>b. Inr winning_response) (Finite 1)
          (initial\<lparr>balance := Finite 10000000000000000\<rparr>))) \<noteq> Finite (10000000000000000 - 1) \<and>
   balance (snd (executeGameRound (\<lambda>e. e = active_bet) (\<lambda>b. Inr winning_response) (Finite 1)
          (initial\<lparr>balance := Finite double_0_3\<rparr>))) = Finite (- (6305039478318694 / 2 ^ 53)) \<and>
   balance (snd (executeGameRound (\<lambda>e. e = active_bet) (\<lambda>b. Inr winning_response) (Finite 1)
          (initial\<lparr>balance := Finite double_0_3\<rparr>))) \<noteq> Finite (double_0_3 - 1)"
proof -
  have rest: "gamestate (initial\<lparr>balance := Finite 10000000000000000\<rparr>) = rest"
    by (simp add: initial_def)
  have rest': "gamestate (initial\<lparr>balance := Finite double_0_3\<rparr>) = rest"
    by (simp add: initial_def)
  have play: "(\<lambda>b. Inr winning_response) (Finite 1) = Inr winning_response"
    by simp
  have a: "balance (snd (executeGameRound (\<lambda>e. e = active_bet) (\<lambda>b. Inr winning_response)
          (Finite 1) (initial\<lparr>balance := Finite double_0_3\<rparr>))) = fl (double_0_3 - 1)"
    by (simp add: executeGameRound_ok [where play = "\<lambda>b. Inr winning_response" and b = "Finite 1",
            OF rest' play])
  have b: "- (6305039478318694 / 2 ^ 53) \<noteq> double_0_3 - (1::real)"
    by (simp add: double_0_3_def)
  have c: "gamestate (initial\<lparr>balance := Finite 10000000000000000\<rparr>) = rest \<and>
   fst (executeGameRound (\<lambda>e. e = active_bet) (\<lambda>b. Inr winning_response) (Finite 1)
          (initial\<lparr>balance := Finite 10000000000000000\<rparr>)) = Inr winning_response \<and>
   balance (snd (executeGameRound (\<lambda>e. e = active_bet) (\<lambda>b. Inr winning_response) (Finite 1)
          (initial\<lparr>balance := Finite 10000000000000000\<rparr>))) = Finite 10000000000000000 \<and>
   balance (snd (executeGameRound (\<lambda>e. e = active_bet) (\<lambda>b. Inr winning_response) (Finite 1)
          (initial\<lparr>balance := Finite 10000000000000000\<rparr>))) \<noteq> Finite (10000000000000000 - 1)"
    by (simp add: rest fl_below_1e16
          executeGameRound_ok [where play = "\<lambda>b. Inr winning_response" and b = "Finite 1",
            OF rest play])
  show ?thesis
    using c b unfolding a fl_0_3_minus_1 by simp
qed

text \<open>
  C2, amended. The bet is taken off exactly where the phase moves from rest to
  playing. When the phase is not rest, executeGameRound fails with the error "cannot
  start play from state ...", leaves the balance as it was and never calls the
  start-round operation. When the phase is rest, the balance after the call is the
  double nearest to the old balance minus betAmount, which is that difference itself
  whenever the difference is a double; the first three effects are, in this order: the
  deduction, the transition from rest to playing, and the start-round call.
\<close>

theorem executeGameRound_deducts_at_start:
  "(gamestate w \<noteq> rest \<longrightarrow>
      fst (executeGameRound i play b w) = Inl (CannotStartPlay (gamestate w)) \<and>
      balance (snd (executeGameRound i play b w)) = balance w \<and>
      PlayRoundCalled b \<notin> set (new_effects w (snd (executeGameRound i play b w)))) \<and>
   (gamestate w = rest \<longrightarrow>
      balance (snd (executeGameRound i play b w)) = jsSub (balance w) b \<and>
      (\<forall>x y. balance w = Finite x \<and> b = Finite y \<longrightarrow>
         balance (snd (executeGameRound i play b w)) = fl (x - y) \<and>
         (is_double (x - y) \<longrightarrow>
            balance (snd (executeGameRound i play b w)) = Finite (x - y))) \<and>
      take 3 (new_effects w (snd (executeGameRound i play b w))) =
        [Console (BalanceDeducted b (jsSub (balance w) b)),
         Console (StateTransition rest playing), PlayRoundCalled b])"
proof (intro conjI impI)
  assume "gamestate w \<noteq> rest"
  note r = executeGameRound_not_rest [OF this, of i play b]
  show "fst (executeGameRound i play b w) = Inl (CannotStartPlay (gamestate w))"
    by (simp add: r)
  show "balance (snd (executeGameRound i play b w)) = balance w"
    by (simp add: r)
  show "PlayRoundCalled b \<notin> set (new_effects w (snd (executeGameRound i play b w)))"
    by (simp add: r new_effects_def)
next
  assume rest: "gamestate w = rest"
  show bal: "balance (snd (executeGameRound i play b w)) = jsSub (balance w) b"
  proof (cases "play b")
    case (Inl err)
    show ?thesis by (simp add: executeGameRound_fail [where play = play and b = b, OF rest Inl])
  next
    case (Inr r)
    show ?thesis by (simp add: executeGameRound_ok [where play = play and b = b, OF rest Inr])
  qed
  show "\<forall>x y. balance w = Finite x \<and> b = Finite y \<longrightarrow>
         balance (snd (executeGameRound i play b w)) = fl (x - y) \<and>
         (is_double (x - y) \<longrightarrow>
            balance (snd (executeGameRound i play b w)) = Finite (x - y))"
    unfolding bal by (auto simp: fl_double)
  show "take 3 (new_effects w (snd (executeGameRound i play b w))) =
        [Console (BalanceDeducted b (jsSub (balance w) b)),
         Console (StateTransition rest playing), PlayRoundCalled b]"
  proof (cases "play b")
    case (Inl err)
    show ?thesis
      by (simp add: executeGameRound_fail [where play = play and b = b, OF rest Inl]
            new_effects_def)
  next
    case (Inr r)
    show ?thesis
      by (simp add: executeGameRound_ok [where play = play and b = b, OF rest Inr]
            new_effects_def)
  qed
qed

theorem executeGameRound_deducts_at_start_witness:
  "gamestate initial = rest \<and>
   balance (snd (executeGameRound (\<lambda>e. e = active_bet) (\<lambda>b. Inr winning_response) (Finite 1)
              initial)) = Finite 999 \<and>
   gamestate (initial\<lparr>gamestate := playing\<rparr>) \<noteq> rest \<and>
   balance (snd (executeGameRound (\<lambda>e. e = active_bet) (\<lambda>b. Inr winning_response) (Finite 1)
              (initial\<lparr>gamestate := playing\<rparr>))) = Finite 1000"
  using executeGameRound_deducts_at_start
          [of initial "\<lambda>e. e = active_bet" "\<lambda>b. Inr winning_response" "Finite 1"]
        executeGameRound_deducts_at_start
          [of "initial\<lparr>gamestate := playing\<rparr>" "\<lambda>e. e = active_bet"
              "\<lambda>b. Inr winning_response" "Finite 1"]
        initial_bet
  by (simp add: initial_def)

text \<open>
  C6. When the phase is rest, so that the start-round call is made, and the call fails
  with an error that is not classified as active-bet, executeGameRound ends with that
  same error and the phase is rest again.
\<close>

theorem executeGameRound_fatal_failure:
  assumes "gamestate w = rest" and "play b = Inl err" and "\<not> i err"
  shows "fst (executeGameRound i play b w) = Inl err \<and>
         gamestate (snd (executeGameRound i play b w)) = rest"
  using assms(3) by (simp add: executeGameRound_fail [where play = play and b = b, OF assms(1,2)])

theorem executeGameRound_fatal_failure_witness:
  "fst (executeGameRound (\<lambda>e. e = active_bet) (\<lambda>b. Inl network_down) (Finite 1) initial)
     = Inl network_down \<and>
   gamestate (snd (executeGameRound (\<lambda>e. e = active_bet) (\<lambda>b. Inl network_down) (Finite 1)
     initial)) = rest"
  using executeGameRound_fatal_failure
          [of initial "\<lambda>b. Inl network_down" "Finite 1" network_down "\<lambda>e. e = active_bet"]
  by (simp add: initial_def network_down_def active_bet_def)

text \<open>
  C8, as the claim states it, fails in two ways. In the phase playing, where
  handleGameRound calls it, a successful finalizeRound whose confirmation carries the
  amount \<open>null\<close> sets the balance to 0 and leaves the phase at playing. In the phase
  awaiting_pick a successful finalizeRound with an amount does not reach rest either,
  because the table has no edge from awaiting_pick to rest.
\<close>

theorem finalizeRound_not_rest_counterexample:
  "fst (finalizeRound (Inr confirmation_null) (initial\<lparr>gamestate := playing\<rparr>))
     = Inr confirmation_null \<and>
   balance (snd (finalizeRound (Inr confirmation_null) (initial\<lparr>gamestate := playing\<rparr>)))
     = Finite 0 \<and>
   gamestate (snd (finalizeRound (Inr confirmation_null) (initial\<lparr>gamestate := playing\<rparr>)))
     \<noteq> rest \<and>
   fst (finalizeRound (Inr confirmation_1000_5) (initial\<lparr>gamestate := awaiting_pick\<rparr>))
     = Inr confirmation_1000_5 \<and>
   gamestate (snd (finalizeRound (Inr confirmation_1000_5) (initial\<lparr>gamestate := awaiting_pick\<rparr>)))
     \<noteq> rest"
proof -
  have n: "balance_amount confirmation_null = Null \<or> balance_amount confirmation_null = Undefined"
    by (simp add: confirmation_null_def)
  have z: "jsDiv1000000 (toNumber (balance_amount confirmation_null)) = Finite 0"
    by (simp add: confirmation_null_def toNumber_def jsDiv1000000_zero)
  have a: "balance_amount confirmation_1000_5 = Num (Finite 1000500000)"
    by (simp add: confirmation_1000_5_def)
  show ?thesis
    by (simp add: finalizeRound_null [OF n] z finalizeRound_ok [OF a])
qed

text \<open>
  C8, amended. On success finalizeRound stores and returns the confirmation and
  overwrites the local balance with the double nearest to the confirmed amount divided
  by 1000000, where the amount \<open>null\<close> counts as 0 and a missing amount gives NaN.
  When the amount is a number it requests the transition to rest through setGameState:
  the phase is rest afterwards unless it was awaiting_pick, in which case it stays
  awaiting_pick. When the amount is \<open>null\<close> or missing the phase is unchanged. On
  failure the error is returned and the phase and the balance are unchanged.
\<close>

theorem finalizeRound_outcome:
  "fst (finalizeRound (Inr c) w) = Inr c \<and>
   balance (snd (finalizeRound (Inr c) w)) =
     (case balance_amount c of
        Num a \<Rightarrow> (case a of Finite x \<Rightarrow> fl (x / 1000000) | _ \<Rightarrow> a)
      | Null \<Rightarrow> Finite 0
      | Undefined \<Rightarrow> NaN) \<and>
   endRoundResponse (snd (finalizeRound (Inr c) w)) = Some c \<and>
   gamestate (snd (finalizeRound (Inr c) w)) =
     (if balance_amount c \<noteq> Null \<and> balance_amount c \<noteq> Undefined
         \<and> gamestate w \<noteq> awaiting_pick
      then rest else gamestate w) \<and>
   fst (finalizeRound (Inl err) w) = Inl err \<and>
   gamestate (snd (finalizeRound (Inl err) w)) = gamestate w \<and>
   balance (snd (finalizeRound (Inl err) w)) = balance w"
proof (cases c rule: amount_cases)
  case (1 a)
  then show ?thesis
    by (simp add: finalizeRound_ok finalizeRound_fail jsDiv1000000_def)
next
  case 2
  then show ?thesis
    using jsDiv1000000_zero
    by (auto simp add: finalizeRound_null finalizeRound_fail toNumber_def jsDiv1000000_def)
qed

theorem finalizeRound_outcome_witness:
  "balance (snd (finalizeRound (Inr confirmation_1000_5) (initial\<lparr>gamestate := playing\<rparr>)))
     = Finite (2001 / 2) \<and>
   gamestate (snd (finalizeRound (Inr confirmation_1000_5) (initial\<lparr>gamestate := playing\<rparr>)))
     = rest"
  using finalizeRound_outcome
          [of confirmation_1000_5 "initial\<lparr>gamestate := playing\<rparr>"]
        confirmed_1000_5
  by (simp add: confirmation_1000_5_def jsDiv1000000_def)

section \<open>Runs of the round orchestrator\<close>

lemma deliver_chosen:
  "chosenIdx l \<noteq> None \<Longrightarrow> deliver env opts taps (l, w, r) = (l, w, r)"
  by (induction taps) (auto simp: pointertap_def)

lemma reveal_targets_append: "reveal_targets (xs @ ys) = reveal_targets xs @ reveal_targets ys"
  by (induction xs rule: reveal_targets.induct) simp_all

lemma win_reports_append: "win_reports (xs @ ys) = win_reports xs @ win_reports ys"
  by (induction xs rule: win_reports.induct) simp_all

lemma phase_changes_append: "phase_changes (xs @ ys) = phase_changes xs @ phase_changes ys"
  by (induction xs rule: phase_changes.induct) simp_all

lemma roundStateLines_cases:
  "roundStateLines r = [] \<or> (\<exists>st. roundStateLines r = [Console (RoundState st)])"
  by (simp add: roundStateLines_def split: option.split)

lemma roundStateLines_quiet [simp]:
  "reveal_targets (roundStateLines r) = []"
  "win_reports (roundStateLines r) = []"
  "phase_changes (roundStateLines r) = []"
  "count_list (roundStateLines r) EndRoundCalled = 0"
  "count_list (roundStateLines r) (CupsInteractive b) = 0"
  "EndRoundCalled \<notin> set (roundStateLines r)"
  "\<not> (\<exists>e \<in> set (roundStateLines r). is_animation e)"
  using roundStateLines_cases [of r] by auto

lemma layoutCall_quiet [simp]:
  "reveal_targets (layoutCall opts) = []"
  "win_reports (layoutCall opts) = []"
  "phase_changes (layoutCall opts) = []"
  "count_list (layoutCall opts) EndRoundCalled = 0"
  "count_list (layoutCall opts) (CupsInteractive b) = 0"
  "\<not> (\<exists>e \<in> set (layoutCall opts). is_animation e)"
  by (simp_all add: layoutCall_def)

lemmas trace_simps = reveal_targets_append win_reports_append phase_changes_append new_effects_def

lemma startRound_ok:
  assumes "\<not> skipAnimation opts" and "gamestate w = rest" and "playRound env (Finite 1) = Inr r"
  shows "startRound env opts w =
    (None, \<lparr>playResponse = Some r, activeBetError = False, chosenIdx = None\<rparr>,
     w\<lparr>gamestate := playing, response := Some r, endRoundResponse := None,
       balance := jsSub (balance w) (Finite 1), lastWin := lastWinOf r (Finite 1),
       out := out w @ [Console (BalanceDeducted (Finite 1) (jsSub (balance w) (Finite 1))),
                Console (StateTransition rest playing), PlayRoundCalled (Finite 1)] @
              roundStateLines r @ [Console (LastWinLine (lastWinOf r (Finite 1)))]\<rparr>)"
  using assms(1)
  by (simp add: startRound_def
        executeGameRound_ok [where play = "playRound env" and b = "Finite 1", OF assms(2,3)])

lemma startRound_active_bet:
  assumes "\<not> skipAnimation opts" and "gamestate w = rest" and "playRound env (Finite 1) = Inl err"
    and "isActiveBetError env err"
  shows "startRound env opts w =
    (None, \<lparr>playResponse = None, activeBetError = True, chosenIdx = None\<rparr>,
     w\<lparr>gamestate := playing, balance := jsSub (balance w) (Finite 1),
       out := out w @ [Console (BalanceDeducted (Finite 1) (jsSub (balance w) (Finite 1))),
                Console (StateTransition rest playing), PlayRoundCalled (Finite 1),
                Console ActiveBetDetected]\<rparr>)"
  using assms(1,4)
  by (simp add: startRound_def
        executeGameRound_fail [where play = "playRound env" and b = "Finite 1", OF assms(2,3)])

lemma startRound_skip:
  assumes "skipAnimation opts"
  shows "startRound env opts w =
    (None, \<lparr>playResponse = None, activeBetError = False, chosenIdx = None\<rparr>, w)"
  using assms by (simp add: startRound_def)

lemma handleGameRound_tap:
  assumes "startRound env opts w = (None, l, w1)" and "chosenIdx l = None"
    and "pointertaps env = idx # taps" and "idx < cupSprites opts"
    and "pointertap_body env opts (l\<lparr>chosenIdx := Some idx\<rparr>) idx
           (w1\<lparr>out := out w1 @ [CupsInteractive True, CupsInteractive False]\<rparr>) = (resolved, w2)"
  shows "handleGameRound env opts w =
    (if resolved then (Returned, l\<lparr>chosenIdx := Some idx\<rparr>, w2\<lparr>out := out w2 @ [OnRest]\<rparr>)
     else (Pending, l\<lparr>chosenIdx := Some idx\<rparr>, w2))"
  using assms
  by (simp add: handleGameRound_def pointertap_def emit_def deliver_chosen)

lemma body_win:
  assumes "\<not> activeBetError l" and "\<not> forceEndRound opts" and "payoutMultiplier_positive (playResponse l)"
  shows "pointertap_body env opts l idx w =
    (case finalizeRound (endRound env)
            (w\<lparr>out := out w @ [LiftCup idx, DiamondVisible True, DiamondAt idx, Timeout 800,
                               LowerCup idx, DiamondVisible False]\<rparr>) of
       (Inl err, w3) \<Rightarrow> (False, w3)
     | (Inr c, w3) \<Rightarrow>
         (True, w3\<lparr>out := out w3 @ OnBalanceUpdate c #
            (if showWinModal_defined opts then [ShowWinModal (lastWin w3)] else []) @ layoutCall opts\<rparr>))"
  using assms
  by (simp add: pointertap_body_def finish_def emit_def emits_def getLastWin_def layoutCall_def Let_def
      split: prod.split sum.split)

lemma body_loss:
  assumes "\<not> activeBetError l" and "\<not> forceEndRound opts" and "\<not> payoutMultiplier_positive (playResponse l)"
  shows "pointertap_body env opts l idx w =
    (case otherIdx_loop idx (mathRandom env) of
       None \<Rightarrow> (False, w\<lparr>out := out w @ [LiftCup idx, Timeout 600, LowerCup idx]\<rparr>)
     | Some otherIdx \<Rightarrow>
         (case cupAt (cupSprites opts) otherIdx of
            Some other \<Rightarrow>
              (True, w\<lparr>out := out w @ [LiftCup idx, Timeout 600, LowerCup idx,
                  LiftCup other, DiamondVisible True, DiamondAt other, Timeout 800,
                  LowerCup other, DiamondVisible False] @ layoutCall opts\<rparr>)
          | None \<Rightarrow>
              (False, w\<lparr>out := out w @ [LiftCup idx, Timeout 600, LowerCup idx,
                  LiftCupUndefined, DiamondVisible True]\<rparr>)))"
  using assms
  by (simp add: pointertap_body_def finish_def emit_def emits_def layoutCall_def Let_def
      split: option.split)

lemma body_recovery:
  assumes "activeBetError l \<or> forceEndRound opts"
  shows "pointertap_body env opts l idx w =
    (case finalizeRound (endRound env) w of
       (Inl err, w1) \<Rightarrow> (False, w1)
     | (Inr c, w1) \<Rightarrow>
         (True, w1\<lparr>out := out w1 @
            OnBalanceUpdate (case endRoundResponse w1 of Some r \<Rightarrow> r | None \<Rightarrow> \<lparr>balance_amount = Num (Finite 0)\<rparr>) #
            layoutCall opts\<rparr>))"
  using assms
  by (simp add: pointertap_body_def finish_def emit_def getLastEndRoundResponse_def layoutCall_def
      split: prod.split sum.split)

lemmas run_simps = handleGameRound_def pointertap_def emit_def deliver_chosen
  finalizeRound_fail

text \<open>
  C3. On the win path (the round started from rest, the response carries a payout
  multiplier pm > 0, the round is not forced to end, and the player taps cup idx),
  the selection recorded is idx, the diamond is shown at cup idx and nowhere else, the
  end-round operation is called exactly once, and the only amount ever passed to
  showWinModal is pm times the bet of 1, which is pm itself; it is passed when the
  callback is defined and the end-round call succeeds.
\<close>

theorem win_path:
  assumes skip: "\<not> skipAnimation opts" and force: "\<not> forceEndRound opts"
    and rest: "gamestate w = rest"
    and play: "playRound env (Finite 1) = Inr r" and rd: "round_opt r = Some rd"
    and pm: "payoutMultiplier rd = Num pm" and pos: "jsPositive pm"
    and taps: "pointertaps env = idx # taps" and idx: "idx < cupSprites opts"
    and run: "handleGameRound env opts w = (res, l', w')"
  shows "chosenIdx l' = Some idx \<and> reveal_targets (new_effects w w') = [idx] \<and>
     count_list (new_effects w w') EndRoundCalled = 1 \<and>
     win_reports (new_effects w w') =
       (if showWinModal_defined opts \<and> (\<exists>c. endRound env = Inr c)
        then [jsMul pm (Finite 1)] else []) \<and>
     (js_number pm \<longrightarrow> jsMul pm (Finite 1) = pm)"
proof -
  note start = startRound_ok [OF skip rest play]
  have lw: "lastWinOf r (Finite 1) = jsMul pm (Finite 1)"
    using rd pm by (simp add: lastWinOf_def round_payoutMultiplier_def toNumber_def)
  have win: "payoutMultiplier_positive (Some r)"
    using rd pm pos by (simp add: payoutMultiplier_positive_def toNumber_def)
  have l': "l' = fst (snd (handleGameRound env opts w))"
    and w': "w' = snd (snd (handleGameRound env opts w))"
    by (simp_all add: run)
  have "chosenIdx l' = Some idx \<and> reveal_targets (new_effects w w') = [idx] \<and>
     count_list (new_effects w w') EndRoundCalled = 1 \<and>
     win_reports (new_effects w w') =
       (if showWinModal_defined opts \<and> (\<exists>c. endRound env = Inr c)
        then [jsMul pm (Finite 1)] else [])"
  proof (cases "endRound env")
    case (Inl err)
    show ?thesis
      unfolding l' w' using force win idx
      by (simp add: run_simps start taps body_win Inl lw trace_simps)
  next
    case (Inr c)
    show ?thesis
    proof (cases c rule: amount_cases)
      case (1 a)
      show ?thesis
        unfolding l' w' using force win idx
        by (simp add: run_simps finalizeRound_ok [OF 1] start taps body_win Inr lw trace_simps)
    next
      case 2
      show ?thesis
        unfolding l' w' using force win idx
        by (simp add: run_simps finalizeRound_null [OF 2] start taps body_win Inr lw trace_simps)
    qed
  qed
  then show ?thesis using jsMul_one by blast
qed

theorem win_path_witness:
  "reveal_targets (new_effects initial
      (snd (snd (handleGameRound (round_env (Inr winning_response)) three_cups initial)))) = [0] \<and>
   count_list (new_effects initial
      (snd (snd (handleGameRound (round_env (Inr winning_response)) three_cups initial))))
      EndRoundCalled = 1 \<and>
   win_reports (new_effects initial
      (snd (snd (handleGameRound (round_env (Inr winning_response)) three_cups initial))))
     = [Finite double_0_6]"
proof -
  have pos: "jsPositive (Finite double_0_6)"
    by (simp add: jsPositive_def double_0_6_def)
  have num: "js_number (Finite double_0_6)"
    by (simp add: is_double_0_6)
  show ?thesis
    using win_path
      [where opts = three_cups and w = initial and env = "round_env (Inr winning_response)"
         and r = winning_response
         and rd = "\<lparr>payoutMultiplier = Num (Finite double_0_6), state = Some ''complete''\<rparr>"
         and pm = "Finite double_0_6" and idx = 0 and taps = "[1]"
         and res = "fst (handleGameRound (round_env (Inr winning_response)) three_cups initial)"
         and l' = "fst (snd (handleGameRound (round_env (Inr winning_response)) three_cups initial))"
         and w' = "snd (snd (handleGameRound (round_env (Inr winning_response)) three_cups initial))"]
      pos num
    by (simp add: three_cups_def initial_def round_env_def winning_response_def)
qed

lemma randomIndex_draw:
  assumes "random_value r"
  shows "\<exists>x. r = Finite x \<and> randomIndex r = Finite (real (threshold_index x))"
proof -
  obtain x where x: "r = Finite x" "is_double x" "0 \<le> x" "x < 1"
    using assms by (cases r) (simp_all add: random_value_def)
  have "randomIndex (Finite x) = Finite (if x < third then 0 else if x < two_thirds then 1 else 2)"
    using x(2-4) by (rule randomIndex_thresholds)
  then show ?thesis using x(1) by (simp add: threshold_index_def)
qed

lemma threshold_index_range: "threshold_index x = 0 \<or> threshold_index x = 1 \<or> threshold_index x = 2"
  by (simp add: threshold_index_def)

lemma otherIdx_loop_first:
  "otherIdx_loop idx rs =
     (case filter (\<lambda>r. randomIndex r \<noteq> Finite (real idx)) rs of
        [] \<Rightarrow> None
      | r # _ \<Rightarrow> Some (randomIndex r))"
  by (induction rs) simp_all

lemma otherIdx_loop_Some:
  assumes "otherIdx_loop idx rs = Some j" and "\<forall>r \<in> set rs. random_value r"
  shows "(j = Finite 0 \<or> j = Finite 1 \<or> j = Finite 2) \<and> j \<noteq> Finite (real idx)"
  using assms
proof (induction rs)
  case Nil
  then show ?case by simp
next
  case (Cons r rs)
  show ?case
  proof (cases "randomIndex r = Finite (real idx)")
    case True
    then show ?thesis using Cons by simp
  next
    case False
    then have j: "j = randomIndex r" using Cons.prems(1) by simp
    obtain x where "randomIndex r = Finite (real (threshold_index x))"
      using randomIndex_draw [of r] Cons.prems(2) by auto
    then show ?thesis using False j threshold_index_range [of x] by auto
  qed
qed

lemma cupAt_index: "cupAt n (Finite (real k)) = (if k < n then Some k else None)"
  by (simp add: cupAt_def)

text \<open>
  C4. On the loss path (the round is not forced to end; either no round was started,
  or it started from rest and the response has no positive payout multiplier), the
  end-round operation is never called. Provided each draw is a value that Math.random
  can return, a draw gets the index 0 below the double nearest 1/3, the index 1 from
  there up to the double nearest 2/3 and the index 2 from there on; the loop returns
  the index of the first draw whose index is not the selection idx, so what it returns
  is 0, 1 or 2 and differs from idx, and it does return when there is such a draw. The
  diamond is shown at the returned index when it names a cup, and nowhere else.
\<close>

theorem loss_path:
  assumes force: "\<not> forceEndRound opts"
    and start: "skipAnimation opts \<or>
      (gamestate w = rest \<and> playRound env (Finite 1) = Inr r \<and>
       \<not> payoutMultiplier_positive (Some r))"
    and taps: "pointertaps env = idx # taps" and idx: "idx < cupSprites opts"
    and draws: "\<forall>r \<in> set (mathRandom env). random_value r"
    and run: "handleGameRound env opts w = (res, l', w')"
  shows "count_list (new_effects w w') EndRoundCalled = 0 \<and>
     (\<forall>x. Finite x \<in> set (mathRandom env) \<longrightarrow>
          randomIndex (Finite x) = Finite (real (threshold_index x))) \<and>
     otherIdx_loop idx (mathRandom env) =
       (case filter (\<lambda>r. randomIndex r \<noteq> Finite (real idx)) (mathRandom env) of
          [] \<Rightarrow> None
        | r # _ \<Rightarrow> Some (randomIndex r)) \<and>
     (\<forall>j. otherIdx_loop idx (mathRandom env) = Some j \<longrightarrow>
          (j = Finite 0 \<or> j = Finite 1 \<or> j = Finite 2) \<and> j \<noteq> Finite (real idx)) \<and>
     ((\<exists>x. Finite x \<in> set (mathRandom env) \<and> threshold_index x \<noteq> idx) \<longrightarrow>
          otherIdx_loop idx (mathRandom env) \<noteq> None) \<and>
     reveal_targets (new_effects w w') =
       (case otherIdx_loop idx (mathRandom env) of
          None \<Rightarrow> []
        | Some j \<Rightarrow> (case cupAt (cupSprites opts) j of Some k \<Rightarrow> [k] | None \<Rightarrow> []))"
proof -
  have w': "w' = snd (snd (handleGameRound env opts w))"
    by (simp add: run)
  have index: "randomIndex (Finite x) = Finite (real (threshold_index x))"
    if "Finite x \<in> set (mathRandom env)" for x
    using randomIndex_draw [of "Finite x"] draws that by auto
  have loop: "\<forall>j. otherIdx_loop idx (mathRandom env) = Some j \<longrightarrow>
          (j = Finite 0 \<or> j = Finite 1 \<or> j = Finite 2) \<and> j \<noteq> Finite (real idx)"
    using otherIdx_loop_Some [OF _ draws] by blast
  have returns: "otherIdx_loop idx (mathRandom env) \<noteq> None"
    if ex: "\<exists>x. Finite x \<in> set (mathRandom env) \<and> threshold_index x \<noteq> idx"
  proof -
    obtain x where x: "Finite x \<in> set (mathRandom env)" "threshold_index x \<noteq> idx"
      using ex by blast
    then have "randomIndex (Finite x) \<noteq> Finite (real idx)" using index by simp
    then have "filter (\<lambda>r. randomIndex r \<noteq> Finite (real idx)) (mathRandom env) \<noteq> []"
      using x(1) by (auto simp: filter_empty_conv)
    then show ?thesis by (simp add: otherIdx_loop_first split: list.split)
  qed
  have effects: "count_list (new_effects w w') EndRoundCalled = 0 \<and>
     reveal_targets (new_effects w w') =
       (case otherIdx_loop idx (mathRandom env) of
          None \<Rightarrow> []
        | Some j \<Rightarrow> (case cupAt (cupSprites opts) j of Some k \<Rightarrow> [k] | None \<Rightarrow> []))"
  proof (cases "skipAnimation opts")
    case True
    note s = startRound_skip [OF True]
    show ?thesis
    proof (cases "otherIdx_loop idx (mathRandom env)")
      case None
      show ?thesis
        unfolding w' using force idx
        by (simp add: run_simps s taps body_loss payoutMultiplier_positive_def None trace_simps)
    next
      case (Some j)
      show ?thesis
        unfolding w' using force idx
        by (cases "cupAt (cupSprites opts) j")
           (simp_all add: run_simps s taps body_loss payoutMultiplier_positive_def Some trace_simps)
    qed
  next
    case False
    then have rest: "gamestate w = rest" and play: "playRound env (Finite 1) = Inr r"
      and loss: "\<not> payoutMultiplier_positive (Some r)"
      using start by simp_all
    note s = startRound_ok [OF False rest play]
    show ?thesis
    proof (cases "otherIdx_loop idx (mathRandom env)")
      case None
      show ?thesis
        unfolding w' using force idx loss
        by (simp add: run_simps s taps body_loss None trace_simps)
    next
      case (Some j)
      show ?thesis
        unfolding w' using force idx loss
        by (cases "cupAt (cupSprites opts) j")
           (simp_all add: run_simps s taps body_loss Some trace_simps)
    qed
  qed
  show ?thesis using effects index loop returns otherIdx_loop_first by blast
qed

lemma example_draws:
  "random_value (Finite (1 / 8))" "random_value (Finite (1 / 2))"
  by (simp_all add: random_value_def is_double_fractions)

lemma example_index:
  "randomIndex (Finite (1 / 8)) = Finite 0" "randomIndex (Finite (1 / 2)) = Finite 1"
proof -
  have "randomIndex (Finite (1 / 8)) =
      Finite (if 1 / 8 < third then 0 else if 1 / 8 < two_thirds then 1 else 2)"
    by (rule randomIndex_thresholds) (simp_all add: is_double_fractions)
  then show "randomIndex (Finite (1 / 8)) = Finite 0" by (simp add: third_def)
  have "randomIndex (Finite (1 / 2)) =
      Finite (if 1 / 2 < third then 0 else if 1 / 2 < two_thirds then 1 else 2)"
    by (rule randomIndex_thresholds) (simp_all add: is_double_fractions)
  then show "randomIndex (Finite (1 / 2)) = Finite 1" by (simp add: third_def two_thirds_def)
qed

lemma example_loop: "otherIdx_loop 0 [Finite (1 / 8), Finite (1 / 2)] = Some (Finite 1)"
  by (simp add: example_index)

text \<open>
  The draw 0.6666666666666666 is the double nearest to 2/3. Three times its value is
  below 2, but the product is rounded to 2 before \<open>Math.floor\<close> sees it.
\<close>

lemma randomIndex_two_thirds:
  "random_value (Finite two_thirds) \<and> two_thirds * 3 < 2 \<and>
   randomIndex (Finite two_thirds) = Finite 2"
proof -
  have d: "is_double two_thirds"
    unfolding two_thirds_def
    by (rule is_doubleI [of _ 6004799503160661 "- 53"]) (simp_all add: power_int_minus field_simps)
  have b: "0 \<le> two_thirds" "two_thirds < 1" "two_thirds * 3 < 2"
    by (simp_all add: two_thirds_def)
  have "randomIndex (Finite two_thirds) =
      Finite (if two_thirds < third then 0 else if two_thirds < two_thirds then 1 else 2)"
    using d b(1,2) by (rule randomIndex_thresholds)
  moreover have "\<not> two_thirds < third" by (simp add: third_def two_thirds_def)
  ultimately show ?thesis using d b by (simp add: random_value_def)
qed

theorem loss_path_witness:
  "count_list (new_effects initial
      (snd (snd (handleGameRound (round_env (Inr losing_response)) three_cups initial))))
      EndRoundCalled = 0 \<and>
   randomIndex (Finite (1 / 8)) = Finite 0 \<and>
   randomIndex (Finite (1 / 2)) = Finite 1 \<and>
   otherIdx_loop 0 [Finite (1 / 8), Finite (1 / 2)] = Some (Finite 1) \<and>
   reveal_targets (new_effects initial
      (snd (snd (handleGameRound (round_env (Inr losing_response)) three_cups initial)))) = [1]"
  using loss_path
    [where opts = three_cups and w = initial and env = "round_env (Inr losing_response)"
       and r = losing_response and idx = 0 and taps = "[1]"
       and res = "fst (handleGameRound (round_env (Inr losing_response)) three_cups initial)"
       and l' = "fst (snd (handleGameRound (round_env (Inr losing_response)) three_cups initial))"
       and w' = "snd (snd (handleGameRound (round_env (Inr losing_response)) three_cups initial))"]
    example_draws example_index example_loop cupAt_index [of 3 1]
  by (simp add: three_cups_def initial_def round_env_def losing_response_def
        payoutMultiplier_positive_def jsPositive_def toNumber_def)

text \<open>
  C5. When the round starts from rest and the start-round call fails with an error
  classified as active-bet, the start of handleGameRound rethrows nothing and leaves
  the balance at the old balance minus the bet of 1; handleGameRound does not end with
  an error; the balance is changed afterwards only by a successful end-round call,
  which overwrites it. The first tap on a cup is accepted, the cups are disabled
  exactly once, the end-round operation is called exactly once, and no effect of the
  reveal animation occurs.
\<close>

theorem active_bet_recovery:
  assumes skip: "\<not> skipAnimation opts" and rest: "gamestate w = rest"
    and play: "playRound env (Finite 1) = Inl err" and active: "isActiveBetError env err"
    and taps: "pointertaps env = idx # taps" and idx: "idx < cupSprites opts"
    and run: "handleGameRound env opts w = (res, l', w')"
  shows "fst (startRound env opts w) = None \<and>
     balance (snd (snd (startRound env opts w))) = jsSub (balance w) (Finite 1) \<and>
     (\<forall>e. res \<noteq> Threw e) \<and>
     balance w' = (case endRound env of
                     Inl e \<Rightarrow> jsSub (balance w) (Finite 1)
                   | Inr c \<Rightarrow> jsDiv1000000 (toNumber (balance_amount c))) \<and>
     chosenIdx l' = Some idx \<and>
     count_list (new_effects w w') (CupsInteractive False) = 1 \<and>
     count_list (new_effects w w') EndRoundCalled = 1 \<and>
     \<not> (\<exists>e \<in> set (new_effects w w'). is_animation e)"
proof -
  note s = startRound_active_bet [OF skip rest play active]
  have res: "res = fst (handleGameRound env opts w)"
    and l': "l' = fst (snd (handleGameRound env opts w))"
    and w': "w' = snd (snd (handleGameRound env opts w))"
    by (simp_all add: run)
  show ?thesis
  proof (cases "endRound env")
    case (Inl e)
    show ?thesis
      unfolding res l' w' using idx
      by (simp add: run_simps s taps body_recovery Inl trace_simps)
  next
    case (Inr c)
    show ?thesis
    proof (cases c rule: amount_cases)
      case (1 a)
      show ?thesis
        unfolding res l' w' using idx 1
        by (simp add: run_simps finalizeRound_ok [OF 1] s taps body_recovery Inr trace_simps
              toNumber_def)
    next
      case 2
      show ?thesis
        unfolding res l' w' using idx
        by (simp add: run_simps finalizeRound_null [OF 2] s taps body_recovery Inr trace_simps)
    qed
  qed
qed

theorem active_bet_recovery_witness:
  "balance (snd (snd (startRound (round_env (Inl active_bet)) three_cups initial)))
     = Finite 999 \<and>
   fst (handleGameRound (round_env (Inl active_bet)) three_cups initial) \<noteq> Threw active_bet \<and>
   balance (snd (snd (handleGameRound (round_env (Inl active_bet)) three_cups initial)))
     = Finite (2001 / 2) \<and>
   count_list (new_effects initial
      (snd (snd (handleGameRound (round_env (Inl active_bet)) three_cups initial))))
      EndRoundCalled = 1 \<and>
   LiftCup 0 \<notin> set (new_effects initial
      (snd (snd (handleGameRound (round_env (Inl active_bet)) three_cups initial))))"
  using active_bet_recovery
    [where opts = three_cups and w = initial and env = "round_env (Inl active_bet)"
       and err = active_bet and idx = 0 and taps = "[1]"
       and res = "fst (handleGameRound (round_env (Inl active_bet)) three_cups initial)"
       and l' = "fst (snd (handleGameRound (round_env (Inl active_bet)) three_cups initial))"
       and w' = "snd (snd (handleGameRound (round_env (Inl active_bet)) three_cups initial))"]
    initial_bet confirmed_1000_5
  by (auto simp add: three_cups_def initial_def round_env_def confirmation_1000_5_def
        toNumber_def)

lemma finalizeRound_effects:
  "\<exists>es. out (snd (finalizeRound e w)) = out w @ es \<and>
        count_list es (CupsInteractive False) = 0 \<and>
        list_all (\<lambda>(a, b). b = playing \<or> b = rest) (phase_changes es)"
proof (cases e)
  case (Inl err)
  then show ?thesis by (simp add: finalizeRound_fail)
next
  case (Inr c)
  show ?thesis
  proof (cases c rule: amount_cases)
    case (1 a)
    then show ?thesis using Inr by (simp add: finalizeRound_ok)
  next
    case 2
    then show ?thesis using Inr by (simp add: finalizeRound_null [OF 2])
  qed
qed

lemma body_effects:
  "\<exists>es. out (snd (pointertap_body env opts l idx w)) = out w @ es \<and>
        count_list es (CupsInteractive False) = 0 \<and>
        list_all (\<lambda>(a, b). b = playing \<or> b = rest) (phase_changes es)"
proof (cases "activeBetError l \<or> forceEndRound opts")
  case True
  obtain es where es: "out (snd (finalizeRound (endRound env) w)) = out w @ es"
    "count_list es (CupsInteractive False) = 0"
    "list_all (\<lambda>(a, b). b = playing \<or> b = rest) (phase_changes es)"
    using finalizeRound_effects by blast
  show ?thesis
    using es
    by (cases "finalizeRound (endRound env) w"; cases "fst (finalizeRound (endRound env) w)")
       (simp_all add: body_recovery [OF True] phase_changes_append)
next
  case False
  then have f: "\<not> activeBetError l" "\<not> forceEndRound opts" by simp_all
  show ?thesis
  proof (cases "payoutMultiplier_positive (playResponse l)")
    case True
    let ?w = "w\<lparr>out := out w @ [LiftCup idx, DiamondVisible True, DiamondAt idx, Timeout 800,
                               LowerCup idx, DiamondVisible False]\<rparr>"
    obtain es where es: "out (snd (finalizeRound (endRound env) ?w)) = out ?w @ es"
      "count_list es (CupsInteractive False) = 0"
      "list_all (\<lambda>(a, b). b = playing \<or> b = rest) (phase_changes es)"
      using finalizeRound_effects by blast
    show ?thesis
      using es
      by (cases "finalizeRound (endRound env) ?w"; cases "fst (finalizeRound (endRound env) ?w)")
         (simp_all add: body_win [OF f True] phase_changes_append)
  next
    case False
    show ?thesis
      by (cases "otherIdx_loop idx (mathRandom env)")
         (simp_all add: body_loss [OF f False] phase_changes_append split: option.split)
  qed
qed

lemma pointertap_accepts:
  assumes "chosenIdx l = None"
  shows "fst (pointertap env opts idx (l, w, r)) = l\<lparr>chosenIdx := Some idx\<rparr> \<and>
     (\<exists>es. out (fst (snd (pointertap env opts idx (l, w, r)))) = out w @ CupsInteractive False # es \<and>
        count_list es (CupsInteractive False) = 0 \<and>
        list_all (\<lambda>(a, b). b = playing \<or> b = rest) (phase_changes es))"
  using assms
    body_effects [of env opts "l\<lparr>chosenIdx := Some idx\<rparr>" idx "emit (CupsInteractive False) w"]
  by (simp add: pointertap_def Let_def case_prod_beta emit_def)

lemma deliver_cases:
  assumes "chosenIdx l = None"
  shows "deliver env opts taps (l, w, r) =
    (case filter (\<lambda>i. i < cupSprites opts) taps of
       [] \<Rightarrow> (l, w, r)
     | i # _ \<Rightarrow> pointertap env opts i (l, w, r))"
proof (induction taps)
  case Nil
  show ?case by simp
next
  case (Cons i taps)
  show ?case
  proof (cases "i < cupSprites opts")
    case True
    have "chosenIdx (fst (pointertap env opts i (l, w, r))) \<noteq> None"
      using pointertap_accepts [OF assms, of env opts i w r] by simp
    then have "deliver env opts taps (pointertap env opts i (l, w, r)) = pointertap env opts i (l, w, r)"
      using deliver_chosen [of "fst (pointertap env opts i (l, w, r))" env opts taps
          "fst (snd (pointertap env opts i (l, w, r)))" "snd (snd (pointertap env opts i (l, w, r)))"]
      by simp
    then show ?thesis using True by simp
  next
    case False
    then show ?thesis using Cons by simp
  qed
qed

lemma startRound_effects:
  "chosenIdx (fst (snd (startRound env opts w))) = None \<and>
   (\<exists>es. out (snd (snd (startRound env opts w))) = out w @ es \<and>
      list_all (\<lambda>(a, b). b = playing \<or> b = rest) (phase_changes es))"
proof (cases "skipAnimation opts")
  case True
  then show ?thesis by (simp add: startRound_skip)
next
  case False
  show ?thesis
  proof (cases "gamestate w = rest")
    case True
    show ?thesis
    proof (cases "playRound env (Finite 1)")
      case (Inl err)
      show ?thesis
        using False
        by (simp add: startRound_def phase_changes_append
              executeGameRound_fail [where play = "playRound env" and b = "Finite 1", OF True Inl])
    next
      case (Inr r)
      show ?thesis
        by (simp add: startRound_ok [OF False True Inr] phase_changes_append)
    qed
  next
    case nr: False
    show ?thesis
      using False
      by (simp add: startRound_def phase_changes_append
            executeGameRound_not_rest [where play = "playRound env" and b = "Finite 1", OF nr])
  qed
qed

lemma deliver_effects:
  assumes "chosenIdx l = None"
  shows "\<exists>es. out (fst (snd (deliver env opts taps (l, w, r)))) = out w @ es \<and>
      list_all (\<lambda>(a, b). b = playing \<or> b = rest) (phase_changes es)"
proof (cases "filter (\<lambda>i. i < cupSprites opts) taps")
  case Nil
  then show ?thesis by (simp add: deliver_cases [OF assms])
next
  case (Cons i rest)
  then show ?thesis
    using pointertap_accepts [OF assms, of env opts i w r]
    by (auto simp: deliver_cases [OF assms])
qed

lemma handleGameRound_effects:
  "\<exists>es. out (snd (snd (handleGameRound env opts w))) = out w @ es \<and>
      list_all (\<lambda>(a, b). b = playing \<or> b = rest) (phase_changes es)"
proof -
  obtain eo l w1 where s: "startRound env opts w = (eo, l, w1)"
    by (cases "startRound env opts w") auto
  obtain es1 where l: "chosenIdx l = None" and es1: "out w1 = out w @ es1"
    "list_all (\<lambda>(a, b). b = playing \<or> b = rest) (phase_changes es1)"
    using startRound_effects [of env opts w] s by auto
  show ?thesis
  proof (cases eo)
    case (Some err)
    then show ?thesis using s es1 by (simp add: handleGameRound_def)
  next
    case None
    obtain l2 w2 resolved where
      d: "deliver env opts (pointertaps env) (l, emit (CupsInteractive True) w1, False) = (l2, w2, resolved)"
      by (cases "deliver env opts (pointertaps env) (l, emit (CupsInteractive True) w1, False)") auto
    obtain es2 where es2: "out w2 = out (emit (CupsInteractive True) w1) @ es2"
      "list_all (\<lambda>(a, b). b = playing \<or> b = rest) (phase_changes es2)"
      using deliver_effects [OF l, of env opts "pointertaps env" "emit (CupsInteractive True) w1" False] d
      by auto
    show ?thesis
      using None s d es1 es2
      by (simp add: handleGameRound_def emit_def phase_changes_append)
  qed
qed

lemma before_finalize_roundStateLines [simp]:
  "before_finalize (roundStateLines r @ es) = roundStateLines r @ before_finalize es"
  using roundStateLines_cases [of r] by (auto simp: before_finalize_def)

lemma before_finalize_layoutCall [simp]:
  "before_finalize (layoutCall opts @ es) = layoutCall opts @ before_finalize es"
  by (simp add: before_finalize_def layoutCall_def)

lemma before_finalize_simps [simp]:
  "before_finalize [] = []"
  "before_finalize (e # es) = (if e = EndRoundCalled then [] else e # before_finalize es)"
  by (simp_all add: before_finalize_def)

text \<open>
  C10. In every run of handleGameRound each phase change goes to playing or to rest,
  never to awaiting_pick or resolving. After a successful start from rest the phase is
  playing when the cups are enabled, so canPickCup is false when a pick is accepted,
  and up to the call of the end-round operation (through the pick and the whole reveal
  sequence; for ever on a loss) the only phase change is the one from rest to playing.
\<close>

theorem flow_stays_playing:
  assumes run: "handleGameRound env opts w = (res, l', w')"
  shows "list_all (\<lambda>(a, b). b = playing \<or> b = rest) (phase_changes (new_effects w w')) \<and>
     (\<not> skipAnimation opts \<and> gamestate w = rest \<and> playRound env (Finite 1) = Inr r \<longrightarrow>
        gamestate (snd (snd (startRound env opts w))) = playing \<and>
        \<not> canPickCup (snd (snd (startRound env opts w))) \<and>
        phase_changes (before_finalize (new_effects w w')) = [(rest, playing)])"
proof (intro conjI impI)
  have w': "w' = snd (snd (handleGameRound env opts w))"
    by (simp add: run)
  show "list_all (\<lambda>(a, b). b = playing \<or> b = rest) (phase_changes (new_effects w w'))"
    using handleGameRound_effects [of env opts w] unfolding w' by (auto simp: new_effects_def)
  assume "\<not> skipAnimation opts \<and> gamestate w = rest \<and> playRound env (Finite 1) = Inr r"
  then have skip: "\<not> skipAnimation opts" and rest: "gamestate w = rest"
    and play: "playRound env (Finite 1) = Inr r"
    by simp_all
  note s = startRound_ok [OF skip rest play]
  show "gamestate (snd (snd (startRound env opts w))) = playing"
    by (simp add: s)
  show "\<not> canPickCup (snd (snd (startRound env opts w)))"
    by (simp add: s canPickCup_def)
  have d: "deliver env opts taps (\<lparr>playResponse = Some r, activeBetError = False, chosenIdx = None\<rparr>, v, False) =
    (case filter (\<lambda>i. i < cupSprites opts) taps of
       [] \<Rightarrow> (\<lparr>playResponse = Some r, activeBetError = False, chosenIdx = None\<rparr>, v, False)
     | i # _ \<Rightarrow> pointertap env opts i
         (\<lparr>playResponse = Some r, activeBetError = False, chosenIdx = None\<rparr>, v, False))" for taps v
    by (rule deliver_cases) simp
  show "phase_changes (before_finalize (new_effects w w')) = [(rest, playing)]"
  proof (cases "filter (\<lambda>i. i < cupSprites opts) (pointertaps env)")
    case Nil
    show ?thesis
      unfolding w'
      by (simp add: handleGameRound_def s d Nil emit_def trace_simps)
  next
    case (Cons idx more)
    show ?thesis
    proof (cases "forceEndRound opts")
      case True
      show ?thesis
      proof (cases "endRound env")
        case (Inl err)
        show ?thesis
          unfolding w' using True
          by (simp add: run_simps s d Cons body_recovery Inl trace_simps)
      next
        case (Inr c)
        show ?thesis
        proof (cases c rule: amount_cases)
          case (1 a)
          show ?thesis
            unfolding w' using True
            by (simp add: run_simps finalizeRound_ok [OF 1] s d Cons body_recovery Inr trace_simps)
        next
          case 2
          show ?thesis
            unfolding w' using True
            by (simp add: run_simps finalizeRound_null [OF 2] s d Cons body_recovery Inr
                  trace_simps)
        qed
      qed
    next
      case force: False
      show ?thesis
      proof (cases "payoutMultiplier_positive (Some r)")
        case True
        show ?thesis
        proof (cases "endRound env")
          case (Inl err)
          show ?thesis
            unfolding w' using force True
            by (simp add: run_simps s d Cons body_win Inl trace_simps)
        next
          case (Inr c)
          show ?thesis
          proof (cases c rule: amount_cases)
            case (1 a)
            show ?thesis
              unfolding w' using force True
              by (simp add: run_simps finalizeRound_ok [OF 1] s d Cons body_win Inr trace_simps)
          next
            case 2
            show ?thesis
              unfolding w' using force True
              by (simp add: run_simps finalizeRound_null [OF 2] s d Cons body_win Inr trace_simps)
          qed
        qed
      next
        case False
        show ?thesis
        proof (cases "otherIdx_loop idx (mathRandom env)")
          case None
          show ?thesis
            unfolding w' using force False
            by (simp add: run_simps s d Cons body_loss None trace_simps)
        next
          case (Some j)
          show ?thesis
            unfolding w' using force False
            by (cases "cupAt (cupSprites opts) j")
               (simp_all add: run_simps s d Cons body_loss Some trace_simps)
        qed
      qed
    qed
  qed
qed

theorem flow_stays_playing_witness:
  "\<not> canPickCup (snd (snd (startRound (round_env (Inr winning_response)) three_cups initial))) \<and>
   phase_changes (before_finalize (new_effects initial
      (snd (snd (handleGameRound (round_env (Inr winning_response)) three_cups initial)))))
     = [(rest, playing)]"
  using flow_stays_playing
    [where opts = three_cups and w = initial and env = "round_env (Inr winning_response)"
       and r = winning_response
       and res = "fst (handleGameRound (round_env (Inr winning_response)) three_cups initial)"
       and l' = "fst (snd (handleGameRound (round_env (Inr winning_response)) three_cups initial))"
       and w' = "snd (snd (handleGameRound (round_env (Inr winning_response)) three_cups initial))"]
  by (simp add: three_cups_def initial_def round_env_def)

text \<open>
  C9 fails on the loss path. In the round below the server reports a payout multiplier
  of 0 and the player taps cup 0: handleGameRound returns, the phase is still playing
  and canStartPlay is false; the next executeGameRound fails with "cannot start play
  from state playing". handleLoss, which state.ts provides for a loss and which
  handleGameRound does not call, would have moved the phase to rest.
\<close>

theorem loss_round_ends_in_playing:
  "fst (handleGameRound (round_env (Inr losing_response)) three_cups initial) = Returned \<and>
   getGameState (snd (snd (handleGameRound (round_env (Inr losing_response)) three_cups initial)))
     = playing \<and>
   \<not> canStartPlay (snd (snd (handleGameRound (round_env (Inr losing_response)) three_cups initial))) \<and>
   fst (executeGameRound (\<lambda>e. e = active_bet) (\<lambda>b. Inr winning_response) (Finite 1)
      (snd (snd (handleGameRound (round_env (Inr losing_response)) three_cups initial))))
     = Inl (CannotStartPlay playing) \<and>
   getGameState (handleLoss
      (snd (snd (handleGameRound (round_env (Inr losing_response)) three_cups initial)))) = rest"
proof -
  have s: "startRound (round_env (Inr losing_response)) three_cups initial =
    (None, \<lparr>playResponse = Some losing_response, activeBetError = False, chosenIdx = None\<rparr>,
     initial\<lparr>gamestate := playing, response := Some losing_response, endRoundResponse := None,
       balance := jsSub (balance initial) (Finite 1), lastWin := lastWinOf losing_response (Finite 1),
       out := out initial @ [Console (BalanceDeducted (Finite 1) (jsSub (balance initial) (Finite 1))),
                Console (StateTransition rest playing), PlayRoundCalled (Finite 1)] @
              roundStateLines losing_response @ [Console (LastWinLine (lastWinOf losing_response (Finite 1)))]\<rparr>)"
    by (rule startRound_ok) (simp_all add: three_cups_def initial_def round_env_def)
  have loop: "otherIdx_loop 0 (mathRandom (round_env (Inr losing_response))) = Some (Finite 1)"
    using example_loop by (simp add: round_env_def)
  have cup: "cupAt 3 (Finite 1) = Some 1"
    using cupAt_index [of 3 1] by simp
  have taps: "pointertaps (round_env (Inr losing_response)) = [0, 1]"
    by (simp add: round_env_def)
  have opts: "\<not> forceEndRound three_cups" "cupSprites three_cups = 3"
    by (simp_all add: three_cups_def)
  have loss: "\<not> payoutMultiplier_positive (Some losing_response)"
    by (simp add: payoutMultiplier_positive_def losing_response_def jsPositive_def toNumber_def)
  have returned: "fst (handleGameRound (round_env (Inr losing_response)) three_cups initial) = Returned"
    using opts loss by (simp add: run_simps s taps body_loss loop cup)
  have phase: "gamestate (snd (snd (handleGameRound (round_env (Inr losing_response)) three_cups initial)))
     = playing"
    using opts loss by (simp add: run_simps s taps body_loss loop cup)
  then have nr: "gamestate (snd (snd (handleGameRound (round_env (Inr losing_response)) three_cups initial)))
     \<noteq> rest"
    by simp
  show ?thesis
    using returned phase
    by (simp add: getGameState_def canStartPlay_def handleLoss_def setGameState_eq
          executeGameRound_not_rest [OF nr])
qed

section \<open>Schedules of the event loop\<close>

lemma finalizeRound_end_effects:
  "\<exists>es. out (snd (finalizeRound_end e w)) = out w @ es \<and>
        count_list es (CupsInteractive False) = 0"
  by (cases e)
     (simp_all add: finalizeRound_end_def emit_def Let_def out_setGameState)

lemma resume_effects:
  "\<exists>es. out (fst (snd (pointertap_resume env opts l idx p w))) = out w @ es \<and>
        count_list es (CupsInteractive False) = 0"
proof (cases "(env, opts, l, idx, p, w)" rule: pointertap_resume.cases)
  case (1 env' opts' l' idx' win w')
  then show ?thesis
    using finalizeRound_end_effects [of "endRound env" w]
    by (simp add: case_prod_beta)
qed (simp_all add: emit_def emits_def finish_def finalizeRound_begin_def case_prod_beta Let_def
       split: option.split)

lemma dispatch_tap_ignored:
  "chosenIdx (vars s) \<noteq> None \<Longrightarrow> dispatch env opts (Tap j) s = s"
  by (simp add: dispatch_def pointertap_call_def)

lemma dispatch_tap_outside:
  "\<not> j < cupSprites opts \<Longrightarrow> dispatch env opts (Tap j) s = s"
  by (simp add: dispatch_def)

lemma dispatch_tap_accepted:
  assumes "chosenIdx (vars s) = None" "idx < cupSprites opts"
  shows "vars (dispatch env opts (Tap idx) s) = (vars s)\<lparr>chosenIdx := Some idx\<rparr>"
    "\<exists>p es. listeners (dispatch env opts (Tap idx) s) = listeners s @ [(idx, p)] \<and> \<not> ended p \<and>
       out (now (dispatch env opts (Tap idx) s)) = out (now s) @ CupsInteractive False # es \<and>
       count_list es (CupsInteractive False) = 0"
    "promise_resolved (dispatch env opts (Tap idx) s) = promise_resolved s"
  using assms
  by (simp_all add: dispatch_def pointertap_call_def Let_def emit_def finalizeRound_begin_def)

lemma dispatch_resume:
  "vars (dispatch env opts (Resume k) s) = vars s"
  "length (listeners (dispatch env opts (Resume k) s)) = length (listeners s)"
  "\<exists>es. out (now (dispatch env opts (Resume k) s)) = out (now s) @ es \<and>
     count_list es (CupsInteractive False) = 0"
proof -
  show "vars (dispatch env opts (Resume k) s) = vars s"
    by (simp add: dispatch_def case_prod_beta)
  show "length (listeners (dispatch env opts (Resume k) s)) = length (listeners s)"
    by (simp add: dispatch_def case_prod_beta)
  show "\<exists>es. out (now (dispatch env opts (Resume k) s)) = out (now s) @ es \<and>
     count_list es (CupsInteractive False) = 0"
    using resume_effects [of env opts "vars s" "fst (listeners s ! k)" "snd (listeners s ! k)" "now s"]
    by (simp add: dispatch_def case_prod_beta)
qed

lemma schedule_chosen:
  assumes "chosenIdx (vars s) \<noteq> None"
  shows "chosenIdx (vars (schedule env opts evs s)) = chosenIdx (vars s) \<and>
     length (listeners (schedule env opts evs s)) = length (listeners s) \<and>
     (\<exists>es. out (now (schedule env opts evs s)) = out (now s) @ es \<and>
        count_list es (CupsInteractive False) = 0)"
  using assms
proof (induction evs arbitrary: s)
  case Nil
  then show ?case by simp
next
  case (Cons ev evs)
  show ?case
  proof (cases ev)
    case (Tap j)
    then show ?thesis using Cons by (simp add: dispatch_tap_ignored)
  next
    case (Resume k)
    obtain es where es: "out (now (dispatch env opts (Resume k) s)) = out (now s) @ es"
      "count_list es (CupsInteractive False) = 0"
      using dispatch_resume(3) by blast
    have c: "chosenIdx (vars (dispatch env opts (Resume k) s)) \<noteq> None"
      using Cons.prems by (simp add: dispatch_resume)
    show ?thesis
      using Cons.IH [OF c] es Resume by (auto simp: dispatch_resume)
  qed
qed

lemma first_pick_simps:
  "first_pick opts [] = None"
  "first_pick opts (Resume k # evs) = first_pick opts evs"
  "first_pick opts (Tap j # evs) = (if j < cupSprites opts then Some j else first_pick opts evs)"
  by (simp_all add: first_pick_def)

lemma schedule_unchosen:
  assumes "chosenIdx (vars s) = None" "listeners s = []"
  shows "chosenIdx (vars (schedule env opts evs s)) = first_pick opts evs \<and>
     length (listeners (schedule env opts evs s)) = (if first_pick opts evs = None then 0 else 1) \<and>
     count_list (new_effects (now s) (now (schedule env opts evs s))) (CupsInteractive False) =
       (if first_pick opts evs = None then 0 else 1)"
  using assms
proof (induction evs arbitrary: s)
  case Nil
  then show ?case by (simp add: first_pick_simps new_effects_def)
next
  case (Cons ev evs)
  show ?case
  proof (cases ev)
    case (Resume k)
    have "dispatch env opts (Resume k) s = s"
      using Cons.prems by (simp add: dispatch_def)
    then show ?thesis using Cons Resume by (simp add: first_pick_simps)
  next
    case (Tap j)
    show ?thesis
    proof (cases "j < cupSprites opts")
      case False
      then show ?thesis using Cons Tap by (simp add: first_pick_simps dispatch_tap_outside)
    next
      case True
      let ?s = "dispatch env opts (Tap j) s"
      have v: "chosenIdx (vars ?s) = Some j"
        using dispatch_tap_accepted(1) [OF Cons.prems(1) True] by simp
      obtain p es where a: "listeners ?s = [(j, p)]"
        "out (now ?s) = out (now s) @ CupsInteractive False # es"
        "count_list es (CupsInteractive False) = 0"
        using dispatch_tap_accepted(2) [OF Cons.prems(1) True, of env] Cons.prems(2) by auto
      have c: "chosenIdx (vars ?s) \<noteq> None" using v by simp
      obtain es' where b: "chosenIdx (vars (schedule env opts evs ?s)) = chosenIdx (vars ?s)"
        "length (listeners (schedule env opts evs ?s)) = length (listeners ?s)"
        "out (now (schedule env opts evs ?s)) = out (now ?s) @ es'"
        "count_list es' (CupsInteractive False) = 0"
        using schedule_chosen [OF c, of env opts evs] by auto
      show ?thesis
        using True Tap v a b by (simp add: first_pick_simps new_effects_def)
    qed
  qed
qed

lemma schedule_idle:
  assumes "listeners s = []" "first_pick opts evs = None"
  shows "schedule env opts evs s = s"
  using assms
proof (induction evs arbitrary: s)
  case Nil
  then show ?case by simp
next
  case (Cons ev evs)
  show ?case
  proof (cases ev)
    case (Resume k)
    have "dispatch env opts (Resume k) s = s"
      using Cons.prems by (simp add: dispatch_def)
    then show ?thesis using Cons Resume by (simp add: first_pick_simps)
  next
    case (Tap j)
    have "\<not> j < cupSprites opts"
      using Cons.prems(2) Tap by (simp add: first_pick_simps split: if_splits)
    then show ?thesis
      using Cons Tap by (simp add: first_pick_simps dispatch_tap_outside)
  qed
qed

lemma first_tap:
  assumes "chosenIdx l = None" "idx < cupSprites opts"
  shows "dispatch env opts (Tap idx) (installed l w) =
    \<lparr>vars = l\<lparr>chosenIdx := Some idx\<rparr>,
     now = w\<lparr>out := out w @ CupsInteractive False #
             (if activeBetError l \<or> forceEndRound opts then [EndRoundCalled] else [LiftCup idx])\<rparr>,
     listeners = [(idx, if activeBetError l \<or> forceEndRound opts then InFinalize False else AwaitLift)],
     promise_resolved = False\<rparr>"
  using assms
  by (simp add: dispatch_def pointertap_call_def installed_def Let_def emit_def
        finalizeRound_begin_def)

text \<open>
  C7. The listeners are installed with chosenIdx null (line 82). Whatever the order in
  which taps arrive and suspended listeners are resumed, the selection at the end is the
  first tap that hit a cup, one listener at most went past the guard of line 112, and
  the cups were disabled once at most. Once a selection is recorded, a tap changes
  nothing: not the locals, not the session, not the suspended listeners; this holds in
  every state the schedule reaches, whatever the phase is. The tap that is accepted
  records the selection and disables the cups in the call of the listener itself: when
  that call is suspended at its first await (\<open>await finalizeRound()\<close> inside
  \<open>await endRound()\<close>, or \<open>await liftCup(cup)\<close>), chosenIdx is set, and \<open>resolve()\<close>
  has not run.
\<close>

theorem at_most_one_selection:
  assumes "chosenIdx l = None" and "s = schedule env opts evs (installed l w)"
  shows "chosenIdx (vars s) = first_pick opts evs \<and>
     length (listeners s) = (if first_pick opts evs = None then 0 else 1) \<and>
     count_list (new_effects w (now s)) (CupsInteractive False) =
       (if first_pick opts evs = None then 0 else 1) \<and>
     (first_pick opts evs \<noteq> None \<longrightarrow> dispatch env opts (Tap j) s = s) \<and>
     (first_pick opts evs = None \<and> idx < cupSprites opts \<longrightarrow>
        dispatch env opts (Tap idx) s =
          \<lparr>vars = l\<lparr>chosenIdx := Some idx\<rparr>,
           now = w\<lparr>out := out w @ CupsInteractive False #
             (if activeBetError l \<or> forceEndRound opts then [EndRoundCalled] else [LiftCup idx])\<rparr>,
           listeners =
             [(idx, if activeBetError l \<or> forceEndRound opts then InFinalize False else AwaitLift)],
           promise_resolved = False\<rparr>)"
proof -
  have i: "chosenIdx (vars (installed l w)) = None" "listeners (installed l w) = []"
    "now (installed l w) = w"
    using assms(1) by (simp_all add: installed_def)
  have a: "chosenIdx (vars s) = first_pick opts evs"
    "length (listeners s) = (if first_pick opts evs = None then 0 else 1)"
    "count_list (new_effects w (now s)) (CupsInteractive False) =
       (if first_pick opts evs = None then 0 else 1)"
    using schedule_unchosen [OF i(1) i(2), of env opts evs] assms(2) i(3) by simp_all
  have b: "dispatch env opts (Tap j) s = s" if "first_pick opts evs \<noteq> None"
    using a(1) that by (simp add: dispatch_tap_ignored)
  have c: "dispatch env opts (Tap idx) s =
          \<lparr>vars = l\<lparr>chosenIdx := Some idx\<rparr>,
           now = w\<lparr>out := out w @ CupsInteractive False #
             (if activeBetError l \<or> forceEndRound opts then [EndRoundCalled] else [LiftCup idx])\<rparr>,
           listeners =
             [(idx, if activeBetError l \<or> forceEndRound opts then InFinalize False else AwaitLift)],
           promise_resolved = False\<rparr>"
    if n: "first_pick opts evs = None" and idx: "idx < cupSprites opts"
  proof -
    have "s = installed l w"
      using schedule_idle [OF i(2) n, of env] assms(2) by simp
    then show ?thesis using first_tap [OF assms(1) idx, of env w] by simp
  qed
  show ?thesis using a b c by blast
qed

theorem at_most_one_selection_witness:
  "chosenIdx \<lparr>playResponse = Some winning_response, activeBetError = False, chosenIdx = None\<rparr> = None \<and>
   first_pick three_cups [Tap 7, Tap 1, Tap 0, Resume 0, Tap 2, Resume 0] = Some 1 \<and>
   chosenIdx (vars (schedule (round_env (Inr winning_response)) three_cups
      [Tap 7, Tap 1, Tap 0, Resume 0, Tap 2, Resume 0]
      (installed \<lparr>playResponse = Some winning_response, activeBetError = False, chosenIdx = None\<rparr>
         initial))) = Some 1 \<and>
   length (listeners (schedule (round_env (Inr winning_response)) three_cups
      [Tap 7, Tap 1, Tap 0, Resume 0, Tap 2, Resume 0]
      (installed \<lparr>playResponse = Some winning_response, activeBetError = False, chosenIdx = None\<rparr>
         initial))) = 1 \<and>
   dispatch (round_env (Inr winning_response)) three_cups (Tap 2)
     (schedule (round_env (Inr winning_response)) three_cups
        [Tap 7, Tap 1, Tap 0, Resume 0, Tap 2, Resume 0]
        (installed \<lparr>playResponse = Some winning_response, activeBetError = False, chosenIdx = None\<rparr>
           initial)) =
     schedule (round_env (Inr winning_response)) three_cups
        [Tap 7, Tap 1, Tap 0, Resume 0, Tap 2, Resume 0]
        (installed \<lparr>playResponse = Some winning_response, activeBetError = False, chosenIdx = None\<rparr>
           initial) \<and>
   first_pick three_cups [Resume 0, Tap 7] = None \<and> 2 < cupSprites three_cups \<and>
   chosenIdx (vars (dispatch (round_env (Inr winning_response)) three_cups (Tap 2)
     (schedule (round_env (Inr winning_response)) three_cups [Resume 0, Tap 7]
        (installed \<lparr>playResponse = Some winning_response, activeBetError = False, chosenIdx = None\<rparr>
           initial)))) = Some 2"
  using at_most_one_selection
     [of "\<lparr>playResponse = Some winning_response, activeBetError = False, chosenIdx = None\<rparr>"
         "schedule (round_env (Inr winning_response)) three_cups
            [Tap 7, Tap 1, Tap 0, Resume 0, Tap 2, Resume 0]
            (installed \<lparr>playResponse = Some winning_response, activeBetError = False, chosenIdx = None\<rparr>
               initial)"
         "round_env (Inr winning_response)" three_cups
         "[Tap 7, Tap 1, Tap 0, Resume 0, Tap 2, Resume 0]" initial 2 0]
    at_most_one_selection
     [of "\<lparr>playResponse = Some winning_response, activeBetError = False, chosenIdx = None\<rparr>"
         "schedule (round_env (Inr winning_response)) three_cups [Resume 0, Tap 7]
            (installed \<lparr>playResponse = Some winning_response, activeBetError = False, chosenIdx = None\<rparr>
               initial)"
         "round_env (Inr winning_response)" three_cups "[Resume 0, Tap 7]" initial 0 2]
  by (simp add: first_pick_simps three_cups_def)

section \<open>The event loop and the listeners taken as a whole\<close>

lemma resume_decreases:
  "\<not> ended p \<Longrightarrow> resumptions_left (fst (pointertap_resume env opts l idx p w)) < resumptions_left p"
  by (cases "(env, opts, l, idx, p, w)" rule: pointertap_resume.cases)
     (simp_all add: case_prod_beta Let_def finish_def split: option.split)

declare run_to_end.simps [simp del]

lemma run_to_end_ended: "ended p \<Longrightarrow> run_to_end env opts l idx (p, w, r) = (p, w, r)"
  by (simp add: run_to_end.simps)

lemma run_to_end_step:
  "\<not> ended p \<Longrightarrow> run_to_end env opts l idx (p, w, r) =
     run_to_end env opts l idx
       (fst (pointertap_resume env opts l idx p w),
        fst (snd (pointertap_resume env opts l idx p w)),
        r \<or> snd (snd (pointertap_resume env opts l idx p w)))"
  by (subst run_to_end.simps) simp

lemma run_to_end_ends: "ended (fst (run_to_end env opts l idx x))"
  by (induction env opts l idx x rule: run_to_end.induct) (simp add: run_to_end.simps)

lemma run_to_end_AfterFinalize:
  "run_to_end env opts l idx (AfterFinalize win res, w, False) =
     (case res of
        Inl err \<Rightarrow> (Rejected, w, False)
      | Inr c \<Rightarrow>
          if win then
            (Resolved,
             snd (finish opts
               (if showWinModal_defined opts \<and> payoutMultiplier_positive (playResponse l)
                then emit (ShowWinModal (getLastWin (emit (OnBalanceUpdate c) w)))
                       (emit (OnBalanceUpdate c) w)
                else emit (OnBalanceUpdate c) w)), True)
          else
            (Resolved,
             snd (finish opts
               (emit (OnBalanceUpdate
                  (case getLastEndRoundResponse w of
                     Some r \<Rightarrow> r
                   | None \<Rightarrow> \<lparr>balance_amount = Num (Finite 0)\<rparr>)) w)), True))"
  by (cases res; cases win)
     (simp_all add: run_to_end_step run_to_end_ended Let_def finish_def case_prod_beta)

lemma run_to_end_InFinalize:
  "run_to_end env opts l idx (InFinalize win, finalizeRound_begin w, False) =
     run_to_end env opts l idx
       (AfterFinalize win (fst (finalizeRound (endRound env) w)),
        snd (finalizeRound (endRound env) w), False)"
  by (simp add: run_to_end_step finalizeRound_def case_prod_beta)

lemma run_to_end_win:
  assumes "payoutMultiplier_positive (playResponse l)"
  shows "run_to_end env opts l idx (AwaitLift, w, False) =
     run_to_end env opts l idx
       (InFinalize True,
        finalizeRound_begin
          (emit (DiamondVisible False)
             (emit (LowerCup idx) (emits [DiamondVisible True, DiamondAt idx, Timeout 800] w))),
        False)"
  using assms by (simp add: run_to_end_step)

lemma run_to_end_loss:
  assumes "\<not> payoutMultiplier_positive (playResponse l)"
  shows "run_to_end env opts l idx (AwaitLift, w, False) =
     (case otherIdx_loop idx (mathRandom env) of
        None \<Rightarrow> (Looping, emit (LowerCup idx) (emit (Timeout 600) w), False)
      | Some otherIdx \<Rightarrow>
          (case cupAt (cupSprites opts) otherIdx of
             Some other \<Rightarrow>
               (Resolved,
                snd (finish opts
                  (emit (DiamondVisible False)
                     (emit (LowerCup other)
                        (emits [DiamondVisible True, DiamondAt other, Timeout 800]
                           (emit (LiftCup other)
                              (emit (LowerCup idx) (emit (Timeout 600) w))))))), True)
           | None \<Rightarrow>
               (Rejected,
                emit (DiamondVisible True)
                  (emit LiftCupUndefined (emit (LowerCup idx) (emit (Timeout 600) w))), False)))"
  using assms
  by (simp add: run_to_end_step run_to_end_ended finish_def split: option.split)

lemma pointertap_run_to_end:
  assumes "chosenIdx l = None"
  shows "pointertap env opts idx (l, w, False) =
     (case pointertap_call opts idx l w of
        (l1, w1, Some p) \<Rightarrow>
          (l1, fst (snd (run_to_end env opts l1 idx (p, w1, False))),
           snd (snd (run_to_end env opts l1 idx (p, w1, False))))
      | (l1, w1, None) \<Rightarrow> (l1, w1, False))"
proof (cases "activeBetError l \<or> forceEndRound opts")
  case True
  show ?thesis
    using assms True
    by (cases "finalizeRound (endRound env) (emit (CupsInteractive False) w)";
        cases "fst (finalizeRound (endRound env) (emit (CupsInteractive False) w))")
       (simp_all add: pointertap_def pointertap_call_def pointertap_body_def Let_def
          run_to_end_InFinalize run_to_end_AfterFinalize finish_def)
next
  case False
  then have f: "\<not> activeBetError l" "\<not> forceEndRound opts" by simp_all
  show ?thesis
  proof (cases "payoutMultiplier_positive (playResponse l)")
    case True
    let ?w = "emits [DiamondVisible True, DiamondAt idx, Timeout 800, LowerCup idx,
                     DiamondVisible False] (emit (LiftCup idx) (emit (CupsInteractive False) w))"
    have e: "emit (DiamondVisible False)
               (emit (LowerCup idx) (emits [DiamondVisible True, DiamondAt idx, Timeout 800]
                  (emit (LiftCup idx) (emit (CupsInteractive False) w)))) = ?w"
      by (simp add: emit_def emits_def)
    show ?thesis
      using assms f True
      by (cases "finalizeRound (endRound env) ?w"; cases "fst (finalizeRound (endRound env) ?w)")
         (simp_all add: pointertap_def pointertap_call_def pointertap_body_def Let_def
            run_to_end_win e run_to_end_InFinalize run_to_end_AfterFinalize finish_def)
  next
    case False
    have e: "emit (LowerCup idx) (emit (Timeout 600) (emit (LiftCup idx) (emit (CupsInteractive False) w)))
       = emits [Timeout 600, LowerCup idx] (emit (LiftCup idx) (emit (CupsInteractive False) w))"
      by (simp add: emit_def emits_def)
    show ?thesis
      using assms f False
      by (simp add: pointertap_def pointertap_call_def pointertap_body_def Let_def
            run_to_end_loss e finish_def emit_def emits_def split: option.split)
  qed
qed


lemma resume_ended: "ended p \<Longrightarrow> pointertap_resume env opts l idx p w = (p, w, False)"
  by (cases p) simp_all

lemma run_to_end_resume:
  "run_to_end env opts l idx
     (fst (pointertap_resume env opts l idx p w),
      fst (snd (pointertap_resume env opts l idx p w)),
      r \<or> snd (snd (pointertap_resume env opts l idx p w))) =
   run_to_end env opts l idx (p, w, r)"
  by (cases "ended p") (simp_all add: resume_ended run_to_end_step)

lemma dispatch_resume_single:
  assumes "listeners s = [(idx, p)]"
  shows "dispatch env opts (Resume k) s =
    (if k = 0 then
       s\<lparr>now := fst (snd (pointertap_resume env opts (vars s) idx p (now s))),
         listeners := [(idx, fst (pointertap_resume env opts (vars s) idx p (now s)))],
         promise_resolved :=
           promise_resolved s \<or> snd (snd (pointertap_resume env opts (vars s) idx p (now s)))\<rparr>
     else s)"
  using assms by (simp add: dispatch_def case_prod_beta)

lemma schedule_selected:
  assumes "listeners s = [(idx, p)]" and "chosenIdx (vars s) \<noteq> None"
  shows "\<exists>p'. listeners (schedule env opts evs s) = [(idx, p')] \<and>
     vars (schedule env opts evs s) = vars s \<and>
     run_to_end env opts (vars s) idx
       (p', now (schedule env opts evs s), promise_resolved (schedule env opts evs s)) =
     run_to_end env opts (vars s) idx (p, now s, promise_resolved s)"
  using assms
proof (induction evs arbitrary: s p)
  case Nil
  then show ?case by simp
next
  case (Cons ev evs)
  show ?case
  proof (cases ev)
    case (Tap j)
    then show ?thesis
      using Cons.IH [OF Cons.prems] Cons.prems(2) by (simp add: dispatch_tap_ignored)
  next
    case (Resume k)
    show ?thesis
    proof (cases "k = 0")
      case False
      then have "dispatch env opts ev s = s"
        using Resume Cons.prems(1) by (simp add: dispatch_resume_single)
      then show ?thesis using Cons.IH [OF Cons.prems] by simp
    next
      case True
      let ?R = "pointertap_resume env opts (vars s) idx p (now s)"
      let ?s = "dispatch env opts ev s"
      have d: "listeners ?s = [(idx, fst ?R)]" "vars ?s = vars s" "now ?s = fst (snd ?R)"
        "promise_resolved ?s = (promise_resolved s \<or> snd (snd ?R))"
        using True Resume Cons.prems(1) by (simp_all add: dispatch_resume_single)
      have c: "chosenIdx (vars ?s) \<noteq> None" using d(2) Cons.prems(2) by simp
      obtain p' where p': "listeners (schedule env opts evs ?s) = [(idx, p')]"
        "vars (schedule env opts evs ?s) = vars ?s"
        "run_to_end env opts (vars ?s) idx
           (p', now (schedule env opts evs ?s), promise_resolved (schedule env opts evs ?s)) =
         run_to_end env opts (vars ?s) idx (fst ?R, now ?s, promise_resolved ?s)"
        using Cons.IH [OF d(1) c] by blast
      have "run_to_end env opts (vars ?s) idx (fst ?R, now ?s, promise_resolved ?s) =
          run_to_end env opts (vars s) idx (p, now s, promise_resolved s)"
        unfolding d by (rule run_to_end_resume)
      then show ?thesis using p' d(2) by simp
    qed
  qed
qed

lemma deliver_first_pick:
  assumes "chosenIdx l = None"
  shows "deliver env opts (taps_of evs) (l, w, r) =
    (case first_pick opts evs of
       None \<Rightarrow> (l, w, r)
     | Some idx \<Rightarrow> pointertap env opts idx (l, w, r))"
  by (simp add: deliver_cases [OF assms] first_pick_def split: list.split)

lemma schedule_split:
  assumes "listeners s = []" and "chosenIdx (vars s) = None" and "first_pick opts evs = Some idx"
  shows "\<exists>evs'. schedule env opts evs s = schedule env opts evs' (dispatch env opts (Tap idx) s) \<and>
     idx < cupSprites opts"
  using assms
proof (induction evs arbitrary: s)
  case Nil
  then show ?case by (simp add: first_pick_simps)
next
  case (Cons ev evs)
  show ?case
  proof (cases ev)
    case (Resume k)
    have "dispatch env opts (Resume k) s = s"
      using Cons.prems by (simp add: dispatch_def)
    then show ?thesis using Cons Resume by (simp add: first_pick_simps)
  next
    case (Tap j)
    show ?thesis
    proof (cases "j < cupSprites opts")
      case False
      then show ?thesis using Cons Tap by (simp add: first_pick_simps dispatch_tap_outside)
    next
      case True
      then have "j = idx" using Cons.prems(3) Tap by (simp add: first_pick_simps)
      then show ?thesis using Tap True by auto
    qed
  qed
qed

text \<open>
  Every schedule agrees with the listeners taken as a whole: the locals are those that
  \<open>deliver\<close> computes from the taps of the schedule, and running the accepted
  listener on to its end gives the world and the \<open>resolve()\<close> flag that \<open>deliver\<close>
  computes. So when the accepted listener has ended, the event loop is in the state
  that \<open>deliver\<close> returns, whatever the order of the events was.
\<close>

lemma schedule_deliver:
  assumes "chosenIdx l = None"
  shows "vars (schedule env opts evs (installed l w)) =
       fst (deliver env opts (taps_of evs) (l, w, False)) \<and>
     (case listeners (schedule env opts evs (installed l w)) of
        [] \<Rightarrow>
          (now (schedule env opts evs (installed l w)),
           promise_resolved (schedule env opts evs (installed l w))) =
          snd (deliver env opts (taps_of evs) (l, w, False))
      | (idx, p) # _ \<Rightarrow>
          snd (run_to_end env opts (vars (schedule env opts evs (installed l w))) idx
                 (p, now (schedule env opts evs (installed l w)),
                  promise_resolved (schedule env opts evs (installed l w)))) =
          snd (deliver env opts (taps_of evs) (l, w, False)))"
proof (cases "first_pick opts evs")
  case None
  have "schedule env opts evs (installed l w) = installed l w"
    by (rule schedule_idle) (simp_all add: installed_def None)
  then show ?thesis
    by (simp add: deliver_first_pick [OF assms] None installed_def)
next
  case (Some idx)
  have i: "listeners (installed l w) = []" "chosenIdx (vars (installed l w)) = None"
    using assms by (simp_all add: installed_def)
  obtain evs' where evs': "schedule env opts evs (installed l w) =
      schedule env opts evs' (dispatch env opts (Tap idx) (installed l w))"
    and idx: "idx < cupSprites opts"
    using schedule_split [OF i Some, of env] by blast
  let ?p = "if activeBetError l \<or> forceEndRound opts then InFinalize False else AwaitLift"
  let ?w = "w\<lparr>out := out w @ CupsInteractive False #
             (if activeBetError l \<or> forceEndRound opts then [EndRoundCalled] else [LiftCup idx])\<rparr>"
  let ?t = "dispatch env opts (Tap idx) (installed l w)"
  have t: "?t = \<lparr>vars = l\<lparr>chosenIdx := Some idx\<rparr>, now = ?w, listeners = [(idx, ?p)],
       promise_resolved = False\<rparr>"
    by (rule first_tap [OF assms idx])
  have t1: "listeners ?t = [(idx, ?p)]" and t2: "chosenIdx (vars ?t) \<noteq> None"
    and t3: "vars ?t = l\<lparr>chosenIdx := Some idx\<rparr>" and t4: "now ?t = ?w"
    and t5: "promise_resolved ?t = False"
    by (simp_all add: t)
  obtain p' where p': "listeners (schedule env opts evs' ?t) = [(idx, p')]"
    "vars (schedule env opts evs' ?t) = vars ?t"
    "run_to_end env opts (vars ?t) idx
       (p', now (schedule env opts evs' ?t), promise_resolved (schedule env opts evs' ?t)) =
     run_to_end env opts (vars ?t) idx (?p, now ?t, promise_resolved ?t)"
    using schedule_selected [OF t1 t2, of env opts evs'] by blast
  have call: "pointertap_call opts idx l w = (l\<lparr>chosenIdx := Some idx\<rparr>, ?w, Some ?p)"
    using assms by (simp add: pointertap_call_def Let_def emit_def finalizeRound_begin_def)
  have big: "pointertap env opts idx (l, w, False) =
      (l\<lparr>chosenIdx := Some idx\<rparr>,
       snd (run_to_end env opts (l\<lparr>chosenIdx := Some idx\<rparr>) idx (?p, ?w, False)))"
    by (simp add: pointertap_run_to_end [OF assms] call)
  show ?thesis
    using p' by (simp add: evs' deliver_first_pick [OF assms] Some big t3 t4 t5)
qed

lemma schedule_ended:
  assumes "chosenIdx l = None"
    and "\<forall>(idx, p) \<in> set (listeners (schedule env opts evs (installed l w))). ended p"
  shows "(vars (schedule env opts evs (installed l w)),
          now (schedule env opts evs (installed l w)),
          promise_resolved (schedule env opts evs (installed l w))) =
     deliver env opts (taps_of evs) (l, w, False)"
proof (cases "listeners (schedule env opts evs (installed l w))")
  case Nil
  then show ?thesis
    using schedule_deliver [OF assms(1), of env opts evs w]
    by (simp add: prod_eq_iff)
next
  case (Cons a ps)
  obtain idx p where a: "a = (idx, p)" by (cases a) auto
  have "ended p" using assms(2) Cons a by simp
  then show ?thesis
    using schedule_deliver [OF assms(1), of env opts evs w] Cons a
    by (simp add: prod_eq_iff run_to_end_ended)
qed

text \<open>Six resumptions after its call, a listener has ended.\<close>

lemma resumed_to_end:
  assumes "listeners s = [(idx, p)]" and "resumptions_left p \<le> n"
  shows "\<exists>p'. listeners (schedule env opts (replicate n (Resume 0)) s) = [(idx, p')] \<and> ended p'"
  using assms
proof (induction n arbitrary: s p)
  case 0
  then have "ended p" by (cases p) simp_all
  then show ?case using 0 by simp
next
  case (Suc n)
  let ?R = "pointertap_resume env opts (vars s) idx p (now s)"
  have d: "listeners (dispatch env opts (Resume 0) s) = [(idx, fst ?R)]"
    using Suc.prems(1) by (simp add: dispatch_resume_single)
  have "resumptions_left (fst ?R) \<le> n"
  proof (cases "ended p")
    case True
    then have "resumptions_left p = 0" by (cases p) simp_all
    then show ?thesis using True by (simp add: resume_ended)
  next
    case False
    then show ?thesis
      using resume_decreases [OF False, of env opts "vars s" idx "now s"] Suc.prems(2) by simp
  qed
  then show ?case using Suc.IH [OF d] by simp
qed

lemma schedule_append:
  "schedule env opts (xs @ ys) s = schedule env opts ys (schedule env opts xs s)"
  by (induction xs arbitrary: s) simp_all

lemma taps_of_append: "taps_of (xs @ ys) = taps_of xs @ taps_of ys"
  by (induction xs rule: taps_of.induct) simp_all

lemma taps_of_simps [simp]:
  "taps_of (map Tap taps) = taps" "taps_of (replicate n (Resume k)) = []"
  by (induction taps, simp_all) (induction n, simp_all)

lemma resumptions_left_le: "resumptions_left p \<le> 6"
  by (cases p) simp_all

text \<open>
  \<open>handleGameRound\<close> is what the event loop computes: in every schedule that
  delivers the taps of the environment and in which the accepted listener has ended,
  the locals, the session and the settling of the promise of line 108 are those of
  \<open>handleGameRound\<close>; and the schedule that delivers the taps and then resumes the
  listener six times is such a schedule.
\<close>

lemma handleGameRound_schedule:
  assumes start: "startRound env opts w = (None, l, w1)"
    and taps: "taps_of evs = pointertaps env"
    and s: "s = schedule env opts evs (installed l (emit (CupsInteractive True) w1))"
    and ended: "\<forall>(idx, p) \<in> set (listeners s). ended p"
  shows "handleGameRound env opts w =
    (if promise_resolved s then (Returned, vars s, emit OnRest (now s))
     else (Pending, vars s, now s))"
proof -
  have l: "chosenIdx l = None"
    using startRound_effects [of env opts w] start by simp
  have "(vars s, now s, promise_resolved s) =
      deliver env opts (pointertaps env) (l, emit (CupsInteractive True) w1, False)"
    using schedule_ended [OF l, of env opts evs "emit (CupsInteractive True) w1"] ended
    unfolding s taps by simp
  then have "deliver env opts (pointertaps env) (l, emit (CupsInteractive True) w1, False) =
      (vars s, now s, promise_resolved s)"
    by simp
  then show ?thesis by (simp add: handleGameRound_def start)
qed

lemma schedule_exists:
  assumes "chosenIdx l = None"
  shows "taps_of (map Tap taps @ replicate 6 (Resume 0)) = taps \<and>
     (\<forall>(idx, p) \<in> set (listeners
         (schedule env opts (map Tap taps @ replicate 6 (Resume 0)) (installed l w))). ended p)"
proof -
  let ?s = "schedule env opts (map Tap taps) (installed l w)"
  have i: "chosenIdx (vars (installed l w)) = None" "listeners (installed l w) = []"
    using assms by (simp_all add: installed_def)
  have len: "length (listeners ?s) = (if first_pick opts (map Tap taps) = None then 0 else 1)"
    using schedule_unchosen [OF i, of env opts "map Tap taps"] by simp
  have "\<forall>(idx, p) \<in> set (listeners (schedule env opts (replicate 6 (Resume 0)) ?s)). ended p"
  proof (cases "listeners ?s")
    case Nil
    have "schedule env opts (replicate 6 (Resume 0)) ?s = ?s"
      by (rule schedule_idle) (simp_all add: Nil first_pick_def)
    then show ?thesis using Nil by simp
  next
    case (Cons a ps)
    then have "ps = []" using len by (simp split: if_splits)
    moreover obtain idx p where "a = (idx, p)" by (cases a) auto
    ultimately have "listeners ?s = [(idx, p)]" using Cons by simp
    then show ?thesis
      using resumed_to_end [OF _ resumptions_left_le, of ?s idx p env opts] by auto
  qed
  then show ?thesis by (simp add: schedule_append taps_of_append)
qed


end
